theory Spec2Isabelle
  imports Main
begin

section \<open>Data model (shared/schema and server/storage.ts)\<close>

text \<open>
  A \<open>User\<close> row as \<open>server/storage.ts\<close> builds it. Nullable text columns are
  \<open>string option\<close>. The column \<open>createdAt\<close> (a wall-clock \<open>Date\<close>) is not read by
  any function modelled here and is left out. The field \<open>id\<close> is called \<open>uid\<close>
  because \<open>id\<close> is HOL's identity function.
\<close>

record user =
  uid :: string
  name :: "string option"
  username :: string
  password :: string
  email :: "string option"
  mobile :: "string option"
  role :: string
  package :: "string option"
  parentId :: "string option"
  position :: "string option"

text \<open>The literal type \<open>"left" | "right"\<close> and the strings it stands for.\<close>

datatype slot = Left | Right

fun slot_str :: "slot \<Rightarrow> string" where
  "slot_str Left = ''left''"
| "slot_str Right = ''right''"

text \<open>
  \<open>CreateClientRequest\<close> (the type inferred from \<open>createClientSchema\<close>): the source
  reads the fields as \<open>client.name\<close>, \<open>client.parentId\<close>, and so on.
  \<open>parentId\<close> and \<open>position\<close> are optional and nullable; \<open>undefined\<close> and \<open>null\<close>
  are both \<open>None\<close>.
\<close>

record CreateClientRequest =
  client_name :: string
  client_username :: string
  client_password :: string
  client_mobile :: string
  client_email :: string
  client_package :: string
  client_parentId :: "string option"
  client_position :: "slot option"

text \<open>\<open>InsertUser\<close>, the argument of \<open>createUser\<close>.\<close>

record InsertUser =
  insertUser_username :: string
  insertUser_password :: string
  insertUser_role :: "string option"
  insertUser_package :: "string option"
  insertUser_parentId :: "string option"
  insertUser_position :: "string option"

text \<open>
  \<open>MemStorage.users\<close> is a JavaScript \<open>Map<string, User>\<close>; every write is
  \<open>this.users.set(id, user)\<close> with \<open>user.id = id\<close>, and every read goes through
  \<open>this.users.values()\<close> or \<open>this.users.get\<close>. The store is therefore the list of
  its values in insertion order, keyed by \<open>uid\<close>. \<open>Map.set\<close> replaces the value of an
  existing key in place and appends a new key at the end.
\<close>

type_synonym store = "user list"

fun users_set :: "user \<Rightarrow> store \<Rightarrow> store" where
  "users_set u [] = [u]"
| "users_set u (v # s) = (if uid v = uid u then u # s else v # users_set u s)"

subsection \<open>JavaScript truthiness of nullable strings\<close>

text \<open>\<open>null\<close>, \<open>undefined\<close> and the empty string are falsy; \<open>a || b\<close> is \<open>a\<close> when \<open>a\<close>
  is truthy and \<open>b\<close> otherwise.\<close>

fun truthy :: "string option \<Rightarrow> bool" where
  "truthy None = False"
| "truthy (Some v) = (v \<noteq> [])"

definition js_or :: "string option \<Rightarrow> string option \<Rightarrow> string option" where
  "js_or a b = (if truthy a then a else b)"

text \<open>\<open>a || null\<close>.\<close>

definition or_null :: "string option \<Rightarrow> string option" where
  "or_null a = js_or a None"

section \<open>Hierarchical queries\<close>

definition getUserById :: "store \<Rightarrow> string \<Rightarrow> user option" where
  "getUserById s i = find (\<lambda>u. uid u = i) s"

definition getUserByUsername :: "store \<Rightarrow> string \<Rightarrow> user option" where
  "getUserByUsername s n = find (\<lambda>u. username u = n) s"

definition getAllClients :: "store \<Rightarrow> user list" where
  "getAllClients s = filter (\<lambda>u. role u = ''client'') s"

definition getClientsByParent :: "store \<Rightarrow> string \<Rightarrow> user list" where
  "getClientsByParent s pid = filter (\<lambda>u. parentId u = Some pid) s"

text \<open>
  \<open>children.map(child => child.position).filter(Boolean)\<close>, then
  \<open>["left", "right"].filter(pos => !occupiedPositions.includes(pos))\<close>.
\<close>

definition getAvailablePositions :: "store \<Rightarrow> string \<Rightarrow> slot list" where
  "getAvailablePositions s pid =
     (let children = getClientsByParent s pid;
          occupiedPositions = filter truthy (map position children);
          allPositions = [Left, Right]
      in filter (\<lambda>pos. Some (slot_str pos) \<notin> set occupiedPositions) allPositions)"

text \<open>
  \<open>getClientDownline\<close> calls itself for every direct child. On a store whose parent
  links form a cycle the source recurses without end, so the model carries fuel and
  returns \<open>None\<close> when it runs out. \<open>downline_loop\<close> is the \<open>for\<close> loop: it pushes the
  child, then the child's downline, onto the accumulated \<open>downline\<close> array.
\<close>

fun downline_loop ::
  "(string \<Rightarrow> user list option) \<Rightarrow> user list \<Rightarrow> user list \<Rightarrow> user list option" where
  "downline_loop rec [] downline = Some downline"
| "downline_loop rec (child # rest) downline =
     (case rec (uid child) of
        None \<Rightarrow> None
      | Some childDownline \<Rightarrow> downline_loop rec rest (downline @ [child] @ childDownline))"

primrec getClientDownline :: "nat \<Rightarrow> store \<Rightarrow> string \<Rightarrow> user list option" where
  "getClientDownline 0 = (\<lambda>s clientId. None)"
| "getClientDownline (Suc fuel) =
     (\<lambda>s clientId. downline_loop (getClientDownline fuel s) (getClientsByParent s clientId) [])"

section \<open>Creating users\<close>

text \<open>
  \<open>randomUUID()\<close> and \<open>bcrypt.hash\<close> are effects outside the store; their results are
  the arguments \<open>newId\<close> and \<open>hashedPassword\<close>. A thrown \<open>Error(message)\<close> is the value
  \<open>Inl (Error message)\<close>. Every operation returns its result together with the store
  it leaves behind.
\<close>

datatype error = Error string

definition createUser :: "string \<Rightarrow> string \<Rightarrow> InsertUser \<Rightarrow> store \<Rightarrow> user \<times> store" where
  "createUser newId hashedPassword insertUser s =
     (let u = \<lparr> uid = newId, name = None, username = insertUser_username insertUser,
                password = hashedPassword, email = None, mobile = None,
                role = (case js_or (insertUser_role insertUser) (Some ''client'') of
                          Some r \<Rightarrow> r | None \<Rightarrow> ''client''),
                package = or_null (insertUser_package insertUser),
                parentId = or_null (insertUser_parentId insertUser),
                position = or_null (insertUser_position insertUser) \<rparr>
      in (u, users_set u s))"

text \<open>The user object both client-creating methods build before \<open>this.users.set\<close>.\<close>

definition client_user ::
  "string \<Rightarrow> string \<Rightarrow> CreateClientRequest \<Rightarrow> string option \<Rightarrow> string option \<Rightarrow> user" where
  "client_user newId hashedPassword client parent pos =
     \<lparr> uid = newId, name = or_null (Some (client_name client)),
       username = client_username client, password = hashedPassword,
       email = or_null (Some (client_email client)),
       mobile = or_null (Some (client_mobile client)),
       role = ''client'', package = Some (client_package client),
       parentId = parent, position = pos \<rparr>"

text \<open>
  \<open>createClient\<close>: the position is \<open>client.position || availablePositions[0]\<close>, computed
  only when \<open>parentId\<close> is truthy and after the check that throws on an empty list.
\<close>

definition createClient ::
  "string \<Rightarrow> string \<Rightarrow> CreateClientRequest \<Rightarrow> string option \<Rightarrow> store
     \<Rightarrow> (error + user) \<times> store" where
  "createClient newId hashedPassword client createdById s =
     (let parentId = js_or (client_parentId client) createdById;
          placed =
            (case parentId of
               None \<Rightarrow> Inr None
             | Some p \<Rightarrow>
                 if p = [] then Inr None
                 else (case getAvailablePositions s p of
                         [] \<Rightarrow> Inl (Error ''Parent already has 2 children'')
                       | a # _ \<Rightarrow>
                           Inr (case client_position client of
                                  Some q \<Rightarrow> Some (slot_str q)
                                | None \<Rightarrow> Some (slot_str a))))
      in case placed of
           Inl e \<Rightarrow> (Inl e, s)
         | Inr pos \<Rightarrow>
             (let u = client_user newId hashedPassword client (or_null parentId) pos
              in (Inr u, users_set u s)))"

text \<open>
  The fallback loop of \<open>createClientWithPayment\<close>: it walks \<open>allClients\<close> and stops
  (\<open>break\<close>) at the first candidate with an available position, overwriting
  \<open>parentId\<close> and \<open>position\<close>; when no candidate has one the two variables keep the
  values they had.
\<close>

fun fallback_loop ::
  "store \<Rightarrow> user list \<Rightarrow> string option \<times> string option \<Rightarrow> string option \<times> string option" where
  "fallback_loop s [] vars = vars"
| "fallback_loop s (potentialParent # rest) vars =
     (case getAvailablePositions s (uid potentialParent) of
        [] \<Rightarrow> fallback_loop s rest vars
      | a # _ \<Rightarrow> (Some (uid potentialParent), Some (slot_str a)))"

definition createClientWithPayment ::
  "string \<Rightarrow> string \<Rightarrow> CreateClientRequest \<Rightarrow> string option \<Rightarrow> store
     \<Rightarrow> (error + user) \<times> store" where
  "createClientWithPayment newId hashedPassword client adminId s =
     (let parentId0 = js_or (client_parentId client) adminId;
          (parentId, pos) =
            (case parentId0 of
               None \<Rightarrow> (parentId0, None)
             | Some p \<Rightarrow>
                 if p = [] then (parentId0, None)
                 else (case getAvailablePositions s p of
                         [] \<Rightarrow>
                           (let (parentId1, position1) =
                                  fallback_loop s (getAllClients s) (parentId0, None)
                            in if \<not> truthy position1 \<and> truthy adminId
                               then (adminId,
                                     (case adminId of
                                        None \<Rightarrow> None
                                      | Some a \<Rightarrow>
                                          (case getAvailablePositions s a of
                                             [] \<Rightarrow> None
                                           | b # _ \<Rightarrow> Some (slot_str b))))
                               else (parentId1, position1))
                       | a # _ \<Rightarrow> (parentId0, Some (slot_str a))));
          u = client_user newId hashedPassword client (or_null parentId) (or_null pos)
      in (Inr u, users_set u s))"

section \<open>Route handlers (server/routes.ts)\<close>






section \<open>Specification vocabulary\<close>

text \<open>
  The parent/child relation on identifiers: \<open>(p, c)\<close> when the stored node \<open>c\<close> names
  \<open>p\<close> as its parent. \<open>descendants\<close> is the set of stored nodes reached from an
  identifier by one or more such steps.
\<close>

definition child_rel :: "store \<Rightarrow> (string \<times> string) set" where
  "child_rel s = set (concat (map (\<lambda>c. case parentId c of None \<Rightarrow> [] | Some p \<Rightarrow> [(p, uid c)]) s))"

definition descendants :: "store \<Rightarrow> string \<Rightarrow> user set" where
  "descendants s x = {u \<in> set s. (x, uid u) \<in> (child_rel s)\<^sup>+}"

text \<open>
  Capacity (I1 and I2) of the stored node \<open>P\<close>: at most two children, and no two of them
  with the same \<open>position\<close> value; \<open>capacity_ok\<close> asks it of every stored node.
\<close>

definition node_capacity :: "store \<Rightarrow> string \<Rightarrow> bool" where
  "node_capacity s p =
     (length (getClientsByParent s p) \<le> 2 \<and> distinct (map position (getClientsByParent s p)))"

definition capacity_ok :: "store \<Rightarrow> bool" where
  "capacity_ok s = list_all (\<lambda>P. node_capacity s (uid P)) s"

text \<open>
  The shape placement maintains: every node that names a parent sits in the slot
  \<open>left\<close> or \<open>right\<close>, and no sibling sits in the same slot.
\<close>

definition tree_ok :: "store \<Rightarrow> bool" where
  "tree_ok s =
     list_all (\<lambda>u. case parentId u of
                      None \<Rightarrow> True
                    | Some p \<Rightarrow>
                        (position u = Some ''left'' \<or> position u = Some ''right'') \<and>
                        distinct (map position (getClientsByParent s p))) s"

subsection \<open>Concrete stores\<close>

definition node :: "string \<Rightarrow> string \<Rightarrow> string option \<Rightarrow> string option \<Rightarrow> user" where
  "node i r p q =
     \<lparr> uid = i, name = None, username = i, password = ''$2b$10$hash'', email = None,
       mobile = None, role = r, package = None, parentId = p, position = q \<rparr>"

definition request :: "string \<Rightarrow> string option \<Rightarrow> slot option \<Rightarrow> CreateClientRequest" where
  "request n p q =
     \<lparr> client_name = ''New Client'', client_username = n, client_password = ''secret1'',
       client_mobile = ''9876543210'', client_email = ''new@example.com'',
       client_package = ''Silver'', client_parentId = p, client_position = q \<rparr>"


text \<open>The store right after \<open>initializeAdminUser\<close>.\<close>

definition store_admin :: store where
  "store_admin = [node ''A'' ''admin'' None None]"

text \<open>The administrator with one client in its left slot.\<close>

definition store_one :: store where
  "store_one = [node ''A'' ''admin'' None None,
                node ''B'' ''client'' (Some ''A'') (Some ''left'')]"

text \<open>
  The spec's scenario: \<open>A\<close> has children \<open>B\<close> (left) and \<open>C\<close> (right); \<open>B\<close> has \<open>D\<close>, \<open>E\<close> and
  \<open>C\<close> has \<open>F\<close>, \<open>G\<close>; created in the order \<open>B, C, D, E, F, G\<close>.
\<close>

definition store_scenario :: store where
  "store_scenario =
     [node ''A'' ''admin'' None None,
      node ''B'' ''client'' (Some ''A'') (Some ''left''),
      node ''C'' ''client'' (Some ''A'') (Some ''right''),
      node ''D'' ''client'' (Some ''B'') (Some ''left''),
      node ''E'' ''client'' (Some ''B'') (Some ''right''),
      node ''F'' ''client'' (Some ''C'') (Some ''left''),
      node ''G'' ''client'' (Some ''C'') (Some ''right'')]"

text \<open>
  A store without a free slot: the administrator \<open>A\<close> and the only client \<open>B\<close> both
  have two children. \<open>C\<close>, \<open>D\<close> and \<open>E\<close> do not have the role \<open>client\<close> (users stored
  by \<open>createUser\<close>, which takes any role, parent and position), so they are no
  candidates of the fallback search.
\<close>

definition store_full :: store where
  "store_full = [node ''A'' ''admin'' None None,
                 node ''B'' ''client'' (Some ''A'') (Some ''left''),
                 node ''C'' ''admin'' (Some ''A'') (Some ''right''),
                 node ''D'' ''admin'' (Some ''B'') (Some ''left''),
                 node ''E'' ''admin'' (Some ''B'') (Some ''right'')]"

text \<open>A store holding a node whose parent identifier matches no stored node.\<close>

definition store_dangling :: store where
  "store_dangling = [node ''A'' ''admin'' None None,
                     node ''B'' ''client'' (Some ''ghost'') (Some ''left'')]"

section \<open>Basic facts\<close>

lemmas store_defs =
  store_admin_def store_one_def store_scenario_def store_full_def store_dangling_def
  node_def request_def

lemmas query_defs =
  getAvailablePositions_def getClientsByParent_def getAllClients_def getUserById_def
  getUserByUsername_def

lemma slot_str_nonempty [simp]: "slot_str q \<noteq> []"
  by (cases q) simp_all

lemma truthy_slot [simp]: "truthy (Some (slot_str q))"
  by simp

lemma slot_str_inj [simp]: "slot_str q = slot_str r \<longleftrightarrow> q = r"
  by (cases q; cases r) simp_all

lemma or_null_Some [simp]: "p \<noteq> [] \<Longrightarrow> or_null (Some p) = Some p"
  by (simp add: or_null_def js_or_def)

lemma or_null_None [simp]: "or_null None = None"
  by (simp add: or_null_def js_or_def)

lemma or_null_slot [simp]: "or_null (Some (slot_str q)) = Some (slot_str q)"
  by (simp add: or_null_def js_or_def)

lemma users_set_fresh: "newId \<notin> uid ` set s \<Longrightarrow> uid u = newId \<Longrightarrow> users_set u s = s @ [u]"
  by (induction s) auto

lemma uid_client_user [simp]: "uid (client_user newId h client parent pos) = newId"
  and parentId_client_user [simp]: "parentId (client_user newId h client parent pos) = parent"
  and position_client_user [simp]: "position (client_user newId h client parent pos) = pos"
  and role_client_user [simp]: "role (client_user newId h client parent pos) = ''client''"
  by (simp_all add: client_user_def)

subsection \<open>Available positions\<close>

lemma avail_iff:
  "q \<in> set (getAvailablePositions s p) \<longleftrightarrow>
     \<not> (\<exists>c \<in> set s. parentId c = Some p \<and> position c = Some (slot_str q))"
proof -
  have "Some (slot_str q) \<in> set (filter truthy (map position (getClientsByParent s p)))
        \<longleftrightarrow> (\<exists>c \<in> set s. parentId c = Some p \<and> position c = Some (slot_str q))"
    by (cases q) (force simp: getClientsByParent_def)+
  moreover have "q \<in> set [Left, Right]" by (cases q) simp_all
  ultimately show ?thesis
    unfolding getAvailablePositions_def Let_def by auto
qed

lemma avail_shape:
  "getAvailablePositions s p =
     (if Left \<in> set (getAvailablePositions s p) then [Left] else []) @
     (if Right \<in> set (getAvailablePositions s p) then [Right] else [])"
  unfolding getAvailablePositions_def Let_def by simp

lemma avail_hd:
  assumes "getAvailablePositions s p = a # as"
  shows "a = (if Left \<in> set (getAvailablePositions s p) then Left else Right)"
  using assms avail_shape[of s p] by (auto split: if_splits)

lemma avail_Nil_iff:
  "getAvailablePositions s p = [] \<longleftrightarrow>
     (\<exists>c \<in> set s. parentId c = Some p \<and> position c = Some ''left'') \<and>
     (\<exists>c \<in> set s. parentId c = Some p \<and> position c = Some ''right'')"
proof -
  have "getAvailablePositions s p = [] \<longleftrightarrow>
      Left \<notin> set (getAvailablePositions s p) \<and> Right \<notin> set (getAvailablePositions s p)"
    using avail_shape[of s p] by (auto split: if_splits)
  then show ?thesis by (simp add: avail_iff)
qed

subsection \<open>The two placement methods, case by case\<close>

lemma createClient_placed:
  assumes "js_or (client_parentId client) createdById = Some p" and "p \<noteq> []"
    and "getAvailablePositions s p = a # as"
  shows "createClient newId h client createdById s =
     (Inr (client_user newId h client (Some p)
             (Some (case client_position client of Some q \<Rightarrow> slot_str q | None \<Rightarrow> slot_str a))),
      users_set (client_user newId h client (Some p)
             (Some (case client_position client of Some q \<Rightarrow> slot_str q | None \<Rightarrow> slot_str a))) s)"
  using assms by (simp add: createClient_def Let_def split: option.splits)

lemma createClient_full:
  assumes "js_or (client_parentId client) createdById = Some p" and "p \<noteq> []"
    and "getAvailablePositions s p = []"
  shows "createClient newId h client createdById s =
     (Inl (Error ''Parent already has 2 children''), s)"
  using assms by (simp add: createClient_def Let_def)

lemma fallback_loop_none:
  "\<forall>c \<in> set cs. getAvailablePositions s (uid c) = [] \<Longrightarrow> fallback_loop s cs vars = vars"
  by (induction cs) simp_all

lemma fallback_loop_found:
  assumes "\<forall>c' \<in> set pre. getAvailablePositions s (uid c') = []"
    and "getAvailablePositions s (uid c) = a # as"
  shows "fallback_loop s (pre @ c # post) vars = (Some (uid c), Some (slot_str a))"
  using assms by (induction pre) simp_all

lemma cwp_direct:
  assumes "js_or (client_parentId client) adminId = Some p" and "p \<noteq> []"
    and "getAvailablePositions s p = a # as"
  shows "createClientWithPayment newId h client adminId s =
     (Inr (client_user newId h client (Some p) (Some (slot_str a))),
      users_set (client_user newId h client (Some p) (Some (slot_str a))) s)"
  using assms by (simp add: createClientWithPayment_def Let_def)

lemma cwp_fallback:
  assumes "js_or (client_parentId client) adminId = Some p" and "p \<noteq> []"
    and "getAvailablePositions s p = []"
    and "getAllClients s = pre @ c # post"
    and "\<forall>c' \<in> set pre. getAvailablePositions s (uid c') = []"
    and "getAvailablePositions s (uid c) = a # as"
  shows "createClientWithPayment newId h client adminId s =
     (Inr (client_user newId h client (or_null (Some (uid c))) (Some (slot_str a))),
      users_set (client_user newId h client (or_null (Some (uid c))) (Some (slot_str a))) s)"
  using assms fallback_loop_found[OF assms(5,6), of post "(Some p, None)"]
  by (simp add: createClientWithPayment_def Let_def)

lemma cwp_anchor:
  assumes "js_or (client_parentId client) adminId = Some p" and "p \<noteq> []"
    and "getAvailablePositions s p = []"
    and "\<forall>c \<in> set (getAllClients s). getAvailablePositions s (uid c) = []"
    and "adminId = Some a" and "a \<noteq> []"
  shows "createClientWithPayment newId h client adminId s =
     (Inr (client_user newId h client (Some a)
             (case getAvailablePositions s a of [] \<Rightarrow> None | b # _ \<Rightarrow> Some (slot_str b))),
      users_set (client_user newId h client (Some a)
             (case getAvailablePositions s a of [] \<Rightarrow> None | b # _ \<Rightarrow> Some (slot_str b))) s)"
  using assms fallback_loop_none[OF assms(4), of "(Some p, None)"]
  by (simp add: createClientWithPayment_def Let_def split: list.splits)

lemma cwp_no_anchor:
  assumes "js_or (client_parentId client) adminId = Some p" and "p \<noteq> []"
    and "getAvailablePositions s p = []"
    and "\<forall>c \<in> set (getAllClients s). getAvailablePositions s (uid c) = []"
    and "\<not> truthy adminId"
  shows "createClientWithPayment newId h client adminId s =
     (Inr (client_user newId h client (Some p) None),
      users_set (client_user newId h client (Some p) None) s)"
  using assms fallback_loop_none[OF assms(4), of "(Some p, None)"]
  by (simp add: createClientWithPayment_def Let_def)

lemma request_fields [simp]:
  "client_parentId (request n p q) = p" "client_position (request n p q) = q"
  by (simp_all add: request_def)

lemma cwp_result:
  "\<exists>parent pos. createClientWithPayment newId h client adminId s =
     (Inr (client_user newId h client parent pos),
      users_set (client_user newId h client parent pos) s)"
  by (simp only: createClientWithPayment_def Let_def case_prod_beta) (intro exI, rule refl)

text \<open>\<open>store_full\<close> is the store four \<open>createUser\<close> calls leave behind on \<open>store_admin\<close>.\<close>

lemma store_full_from_createUser:
  "store_full =
     snd (createUser ''E'' ''$2b$10$hash''
            \<lparr> insertUser_username = ''E'', insertUser_password = ''pw'',
              insertUser_role = Some ''admin'', insertUser_package = None,
              insertUser_parentId = Some ''B'', insertUser_position = Some ''right'' \<rparr>
       (snd (createUser ''D'' ''$2b$10$hash''
            \<lparr> insertUser_username = ''D'', insertUser_password = ''pw'',
              insertUser_role = Some ''admin'', insertUser_package = None,
              insertUser_parentId = Some ''B'', insertUser_position = Some ''left'' \<rparr>
       (snd (createUser ''C'' ''$2b$10$hash''
            \<lparr> insertUser_username = ''C'', insertUser_password = ''pw'',
              insertUser_role = Some ''admin'', insertUser_package = None,
              insertUser_parentId = Some ''A'', insertUser_position = Some ''right'' \<rparr>
       (snd (createUser ''B'' ''$2b$10$hash''
            \<lparr> insertUser_username = ''B'', insertUser_password = ''pw'',
              insertUser_role = Some ''client'', insertUser_package = None,
              insertUser_parentId = Some ''A'', insertUser_position = Some ''left'' \<rparr>
          store_admin)))))))"
  by (simp add: store_defs createUser_def js_or_def or_null_def Let_def)

lemma getAllClients_subset: "c \<in> set (getAllClients s) \<Longrightarrow> c \<in> set s"
  by (simp add: getAllClients_def)

subsection \<open>The parent check of the payment route\<close>


section \<open>The capacity invariant\<close>

lemma getClientsByParent_append:
  "getClientsByParent (s @ [u]) p =
     getClientsByParent s p @ (if parentId u = Some p then [u] else [])"
  by (simp add: getClientsByParent_def)

lemma in_getClientsByParent:
  "c \<in> set (getClientsByParent s p) \<longleftrightarrow> c \<in> set s \<and> parentId c = Some p"
  by (simp add: getClientsByParent_def)

lemma tree_ok_iff:
  "tree_ok s \<longleftrightarrow>
     (\<forall>u \<in> set s. \<forall>p. parentId u = Some p \<longrightarrow>
        (position u = Some ''left'' \<or> position u = Some ''right'') \<and>
        distinct (map position (getClientsByParent s p)))"
  unfolding tree_ok_def list_all_iff
  by (rule ball_cong[OF refl]) (simp split: option.splits)

lemma tree_ok_distinct:
  assumes "tree_ok s"
  shows "distinct (map position (getClientsByParent s p))"
proof (cases "getClientsByParent s p")
  case Nil
  then show ?thesis by simp
next
  case (Cons c cs)
  then have "c \<in> set (getClientsByParent s p)" by simp
  then have "c \<in> set s" "parentId c = Some p"
    by (simp_all add: in_getClientsByParent)
  with assms show ?thesis
    unfolding tree_ok_iff by blast
qed

lemma tree_ok_positions:
  assumes "tree_ok s" and "c \<in> set (getClientsByParent s p)"
  shows "position c = Some ''left'' \<or> position c = Some ''right''"
  using assms unfolding tree_ok_iff in_getClientsByParent by blast

lemma tree_ok_capacity:
  assumes "tree_ok s"
  shows "node_capacity s p"
proof -
  let ?ps = "map position (getClientsByParent s p)"
  have d: "distinct ?ps"
    using assms by (rule tree_ok_distinct)
  have "set ?ps \<subseteq> {Some ''left'', Some ''right''}"
    using tree_ok_positions[OF assms, of _ p] by auto
  then have "card (set ?ps) \<le> card {Some ''left'', Some ''right''}"
    by (intro card_mono) simp_all
  also have "\<dots> = 2" by simp
  finally have "length ?ps \<le> 2"
    using distinct_card[OF d] by simp
  with d show ?thesis
    by (simp add: node_capacity_def)
qed

lemma tree_ok_capacity_ok: "tree_ok s \<Longrightarrow> capacity_ok s"
  by (simp add: capacity_ok_def list_all_iff tree_ok_capacity)

lemma tree_ok_append_root:
  assumes "tree_ok s" and "parentId u = None"
  shows "tree_ok (s @ [u])"
proof -
  have same: "getClientsByParent (s @ [u]) p = getClientsByParent s p" for p
    using assms(2) by (simp add: getClientsByParent_append)
  show ?thesis
    unfolding tree_ok_iff same using assms unfolding tree_ok_iff by auto
qed

lemma tree_ok_append_slot:
  assumes "tree_ok s" and "parentId u = Some p" and "position u = Some (slot_str q)"
    and "q \<in> set (getAvailablePositions s p)"
  shows "tree_ok (s @ [u])"
  unfolding tree_ok_iff
proof (intro ballI allI impI conjI)
  fix v p'
  assume v: "v \<in> set (s @ [u])" and pv: "parentId v = Some p'"
  show "position v = Some ''left'' \<or> position v = Some ''right''"
  proof (cases "v = u")
    case True
    then show ?thesis using assms(3) by (cases q) simp_all
  next
    case False
    with v have "v \<in> set s" by simp
    with assms(1) pv show ?thesis unfolding tree_ok_iff by blast
  qed
  show "distinct (map position (getClientsByParent (s @ [u]) p'))"
  proof (cases "p' = p")
    case False
    then have "getClientsByParent (s @ [u]) p' = getClientsByParent s p'"
      using assms(2) by (simp add: getClientsByParent_append)
    then show ?thesis
      using tree_ok_distinct[OF assms(1), of p'] by simp
  next
    case True
    have free: "Some (slot_str q) \<notin> set (map position (getClientsByParent s p))"
      using assms(4) unfolding avail_iff by (auto simp: in_getClientsByParent)
    have "map position (getClientsByParent (s @ [u]) p) =
        map position (getClientsByParent s p) @ [Some (slot_str q)]"
      using assms(2,3) by (simp add: getClientsByParent_append)
    then show ?thesis
      unfolding True using tree_ok_distinct[OF assms(1), of p] free by simp
  qed
qed

lemma cwp_no_parent:
  assumes "\<not> truthy (js_or (client_parentId client) adminId)"
  shows "createClientWithPayment newId h client adminId s =
     (Inr (client_user newId h client None None),
      users_set (client_user newId h client None None) s)"
proof (cases "js_or (client_parentId client) adminId")
  case None
  then show ?thesis by (simp add: createClientWithPayment_def Let_def)
next
  case (Some p)
  with assms have "p = []" by simp
  with Some show ?thesis
    by (simp add: createClientWithPayment_def Let_def or_null_def js_or_def)
qed

lemma createClient_no_parent:
  assumes "\<not> truthy (js_or (client_parentId client) createdById)"
  shows "createClient newId h client createdById s =
     (Inr (client_user newId h client None None),
      users_set (client_user newId h client None None) s)"
proof (cases "js_or (client_parentId client) createdById")
  case None
  then show ?thesis by (simp add: createClient_def Let_def)
next
  case (Some p)
  with assms have "p = []" by simp
  with Some show ?thesis
    by (simp add: createClient_def Let_def or_null_def js_or_def)
qed

lemma cwp_cases:
  "\<exists>parent pos.
     createClientWithPayment newId h client adminId s =
       (Inr (client_user newId h client parent pos),
        users_set (client_user newId h client parent pos) s) \<and>
     (parent = None \<or> pos = None \<or>
      (\<exists>p q. parent = Some p \<and> pos = Some (slot_str q) \<and>
             q \<in> set (getAvailablePositions s p)))"
proof (cases "truthy (js_or (client_parentId client) adminId)")
  case False
  show ?thesis
  proof (intro exI conjI)
    show "createClientWithPayment newId h client adminId s =
       (Inr (client_user newId h client None None),
        users_set (client_user newId h client None None) s)"
      by (rule cwp_no_parent[OF False])
    show "(None :: string option) = None \<or> (None :: string option) = None \<or>
      (\<exists>p q. None = Some p \<and> None = Some (slot_str q) \<and> q \<in> set (getAvailablePositions s p))"
      by simp
  qed
next
  case True
  then obtain p where eff: "js_or (client_parentId client) adminId = Some p" and ne: "p \<noteq> []"
    by (cases "js_or (client_parentId client) adminId") auto
  show ?thesis
  proof (cases "getAvailablePositions s p")
    case (Cons a as)
    show ?thesis
    proof (intro exI conjI)
      show "createClientWithPayment newId h client adminId s =
        (Inr (client_user newId h client (Some p) (Some (slot_str a))),
         users_set (client_user newId h client (Some p) (Some (slot_str a))) s)"
        by (rule cwp_direct[OF eff ne Cons])
      show "Some p = None \<or> Some (slot_str a) = None \<or>
        (\<exists>p' q. Some p = Some p' \<and> Some (slot_str a) = Some (slot_str q) \<and>
           q \<in> set (getAvailablePositions s p'))"
        using Cons by auto
    qed
  next
    case Nil
    show ?thesis
    proof (cases "\<exists>c \<in> set (getAllClients s). getAvailablePositions s (uid c) \<noteq> []")
      case True
      then obtain pre c post where
        split: "getAllClients s = pre @ c # post"
        and c: "getAvailablePositions s (uid c) \<noteq> []"
        and pre: "\<forall>c' \<in> set pre. \<not> getAvailablePositions s (uid c') \<noteq> []"
        using split_list_first_prop[of "getAllClients s"
            "\<lambda>c. getAvailablePositions s (uid c) \<noteq> []"]
        by blast
      from c obtain b bs where b: "getAvailablePositions s (uid c) = b # bs"
        by (cases "getAvailablePositions s (uid c)") auto
      from pre have pre': "\<forall>c' \<in> set pre. getAvailablePositions s (uid c') = []"
        by simp
      show ?thesis
      proof (intro exI conjI)
        show "createClientWithPayment newId h client adminId s =
          (Inr (client_user newId h client (or_null (Some (uid c))) (Some (slot_str b))),
           users_set (client_user newId h client (or_null (Some (uid c))) (Some (slot_str b))) s)"
          by (rule cwp_fallback[OF eff ne Nil split pre' b])
        show "or_null (Some (uid c)) = None \<or> Some (slot_str b) = None \<or>
          (\<exists>p' q. or_null (Some (uid c)) = Some p' \<and> Some (slot_str b) = Some (slot_str q) \<and>
             q \<in> set (getAvailablePositions s p'))"
        proof (cases "uid c = []")
          case True
          then show ?thesis by (simp add: or_null_def js_or_def)
        next
          case False
          then show ?thesis using b by auto
        qed
      qed
    next
      case False
      then have none: "\<forall>c \<in> set (getAllClients s). getAvailablePositions s (uid c) = []"
        by simp
      show ?thesis
      proof (cases "truthy adminId")
        case True
        then obtain a where a: "adminId = Some a" "a \<noteq> []"
          by (cases adminId) auto
        let ?pos = "case getAvailablePositions s a of [] \<Rightarrow> None | b # _ \<Rightarrow> Some (slot_str b)"
        show ?thesis
        proof (intro exI conjI)
          show "createClientWithPayment newId h client adminId s =
            (Inr (client_user newId h client (Some a) ?pos),
             users_set (client_user newId h client (Some a) ?pos) s)"
            by (rule cwp_anchor[OF eff ne Nil none a])
          show "Some a = None \<or> ?pos = None \<or>
            (\<exists>p' q. Some a = Some p' \<and> ?pos = Some (slot_str q) \<and>
               q \<in> set (getAvailablePositions s p'))"
            by (cases "getAvailablePositions s a") auto
        qed
      next
        case no: False
        show ?thesis
        proof (intro exI conjI)
          show "createClientWithPayment newId h client adminId s =
            (Inr (client_user newId h client (Some p) None),
             users_set (client_user newId h client (Some p) None) s)"
            by (rule cwp_no_anchor[OF eff ne Nil none no])
          show "Some p = None \<or> (None :: string option) = None \<or>
            (\<exists>p' q. Some p = Some p' \<and> None = Some (slot_str q) \<and>
               q \<in> set (getAvailablePositions s p'))"
            by simp
        qed
      qed
    qed
  qed
qed

lemma tree_ok_append_client_user:
  assumes "tree_ok s"
    and "parent = None \<or>
      (\<exists>p q. parent = Some p \<and> pos = Some (slot_str q) \<and> q \<in> set (getAvailablePositions s p))"
  shows "tree_ok (s @ [client_user newId h client parent pos])"
  using assms(2)
proof
  assume "parent = None"
  then show ?thesis
    by (intro tree_ok_append_root[OF assms(1)]) simp
next
  assume "\<exists>p q. parent = Some p \<and> pos = Some (slot_str q) \<and> q \<in> set (getAvailablePositions s p)"
  then obtain p q where "parent = Some p" "pos = Some (slot_str q)"
    "q \<in> set (getAvailablePositions s p)"
    by blast
  then show ?thesis
    by (intro tree_ok_append_slot[OF assms(1), of _ p q]) simp_all
qed

section \<open>The parent/child relation\<close>

lemma child_rel_iff:
  "(p, c) \<in> child_rel s \<longleftrightarrow> (\<exists>u \<in> set s. parentId u = Some p \<and> uid u = c)"
proof
  assume "(p, c) \<in> child_rel s"
  then obtain u where "u \<in> set s"
    and "(p, c) \<in> set (case parentId u of None \<Rightarrow> [] | Some p' \<Rightarrow> [(p', uid u)])"
    unfolding child_rel_def by auto
  then show "\<exists>u \<in> set s. parentId u = Some p \<and> uid u = c"
    by (cases "parentId u") auto
next
  assume "\<exists>u \<in> set s. parentId u = Some p \<and> uid u = c"
  then obtain u where "u \<in> set s" "parentId u = Some p" "uid u = c"
    by blast
  then have "u \<in> set s"
    and "(p, c) \<in> set (case parentId u of None \<Rightarrow> [] | Some p' \<Rightarrow> [(p', uid u)])"
    by simp_all
  then show "(p, c) \<in> child_rel s"
    unfolding child_rel_def set_concat set_map by blast
qed

lemma finite_child_rel: "finite (child_rel s)"
  unfolding child_rel_def by (rule finite_set)

lemma child_rel_children:
  "c \<in> set (getClientsByParent s x) \<Longrightarrow> (x, uid c) \<in> child_rel s"
  by (auto simp: child_rel_iff in_getClientsByParent)

lemma uid_inj:
  assumes "distinct (map uid s)" and "u \<in> set s" and "v \<in> set s" and "uid u = uid v"
  shows "u = v"
  using assms by (meson distinct_map inj_onD)

lemma unique_parent:
  assumes "distinct (map uid s)" and "(a, z) \<in> child_rel s" and "(b, z) \<in> child_rel s"
  shows "a = b"
proof -
  from assms(2) obtain u where u: "u \<in> set s" "parentId u = Some a" "uid u = z"
    unfolding child_rel_iff by blast
  from assms(3) obtain v where v: "v \<in> set s" "parentId v = Some b" "uid v = z"
    unfolding child_rel_iff by blast
  have "u = v"
    using uid_inj[OF assms(1) u(1) v(1)] u(3) v(3) by simp
  with u(2) v(2) show ?thesis by simp
qed

lemma last_step:
  assumes "distinct (map uid s)" and "(a, z) \<in> (child_rel s)\<^sup>+" and "(p, z) \<in> child_rel s"
  shows "a = p \<or> (a, p) \<in> (child_rel s)\<^sup>+"
  using assms(2)
proof (cases rule: tranclE)
  case base
  then show ?thesis using unique_parent[OF assms(1) _ assms(3)] by blast
next
  case (step y)
  then have "y = p" using unique_parent[OF assms(1) _ assms(3)] by blast
  with step show ?thesis by simp
qed

lemma ancestors_chain:
  assumes "distinct (map uid s)" and "(a, u) \<in> (child_rel s)\<^sup>+"
    and "(b, u) \<in> (child_rel s)\<^sup>+"
  shows "a = b \<or> (a, b) \<in> (child_rel s)\<^sup>+ \<or> (b, a) \<in> (child_rel s)\<^sup>+"
  using assms(2,3)
proof (induction arbitrary: b rule: trancl_induct)
  case (base y)
  then show ?case
    using last_step[OF assms(1), of b y a] by blast
next
  case (step y z)
  from last_step[OF assms(1) step.prems step.hyps(2)]
  show ?case
  proof
    assume "b = y"
    with step.hyps(1) show ?thesis by simp
  next
    assume "(b, y) \<in> (child_rel s)\<^sup>+"
    then show ?thesis by (rule step.IH)
  qed
qed

lemma sibling_not_ancestor:
  assumes "acyclic (child_rel s)" and "distinct (map uid s)"
    and "(x, a) \<in> child_rel s" and "(x, b) \<in> child_rel s"
  shows "(a, b) \<notin> (child_rel s)\<^sup>+"
proof
  assume "(a, b) \<in> (child_rel s)\<^sup>+"
  from last_step[OF assms(2) this assms(4)]
  have "(a, a) \<in> (child_rel s)\<^sup>+"
  proof
    assume "a = x"
    with assms(3) show ?thesis by auto
  next
    assume "(a, x) \<in> (child_rel s)\<^sup>+"
    then show ?thesis using assms(3) by (rule trancl_into_trancl)
  qed
  with assms(1) show False by (simp add: acyclic_def)
qed

subsection \<open>Descendants\<close>

lemma descendants_unfold:
  assumes "distinct (map uid s)"
  shows "descendants s x =
    (\<Union>c \<in> set (getClientsByParent s x). insert c (descendants s (uid c)))"
proof (intro set_eqI iffI)
  fix u
  assume "u \<in> descendants s x"
  then have u: "u \<in> set s" and path: "(x, uid u) \<in> (child_rel s)\<^sup>+"
    by (simp_all add: descendants_def)
  from path obtain z where z: "(x, z) \<in> child_rel s" and rest: "(z, uid u) \<in> (child_rel s)\<^sup>*"
    by (auto dest: tranclD)
  from z obtain c where c: "c \<in> set s" "parentId c = Some x" "uid c = z"
    unfolding child_rel_iff by blast
  then have cin: "c \<in> set (getClientsByParent s x)"
    by (simp add: in_getClientsByParent)
  from rest have "z = uid u \<or> (z, uid u) \<in> (child_rel s)\<^sup>+"
    by (auto simp: rtrancl_eq_or_trancl)
  then have "u \<in> insert c (descendants s (uid c))"
  proof
    assume "z = uid u"
    then have "u = c"
      using uid_inj[OF assms u c(1)] c(3) by simp
    then show ?thesis by simp
  next
    assume "(z, uid u) \<in> (child_rel s)\<^sup>+"
    then show ?thesis using u c(3) by (simp add: descendants_def)
  qed
  with cin show "u \<in> (\<Union>c \<in> set (getClientsByParent s x). insert c (descendants s (uid c)))"
    by blast
next
  fix u
  assume "u \<in> (\<Union>c \<in> set (getClientsByParent s x). insert c (descendants s (uid c)))"
  then obtain c where cin: "c \<in> set (getClientsByParent s x)"
    and u: "u = c \<or> u \<in> descendants s (uid c)"
    by blast
  from cin have c: "c \<in> set s" and edge: "(x, uid c) \<in> child_rel s"
    by (simp_all add: in_getClientsByParent child_rel_children[OF cin])
  from u show "u \<in> descendants s x"
  proof
    assume "u = c"
    with c edge show ?thesis by (auto simp: descendants_def)
  next
    assume "u \<in> descendants s (uid c)"
    then have "u \<in> set s" "(uid c, uid u) \<in> (child_rel s)\<^sup>+"
      by (simp_all add: descendants_def)
    with edge show ?thesis
      by (auto simp: descendants_def intro: trancl_into_trancl2)
  qed
qed

lemma not_own_descendant:
  assumes "acyclic (child_rel s)"
  shows "c \<notin> descendants s (uid c)"
  using assms by (auto simp: descendants_def acyclic_def)

lemma sibling_disjoint:
  assumes "acyclic (child_rel s)" and "distinct (map uid s)"
    and "c \<in> set (getClientsByParent s x)" and "c' \<in> set (getClientsByParent s x)"
    and "c \<noteq> c'"
  shows "insert c (descendants s (uid c)) \<inter> insert c' (descendants s (uid c')) = {}"
proof -
  have c: "c \<in> set s" "(x, uid c) \<in> child_rel s"
    and c': "c' \<in> set s" "(x, uid c') \<in> child_rel s"
    using assms(3,4) by (simp_all add: in_getClientsByParent child_rel_children)
  have ne: "uid c \<noteq> uid c'"
    using uid_inj[OF assms(2) c(1) c'(1)] assms(5) by blast
  have no1: "(uid c, uid c') \<notin> (child_rel s)\<^sup>+"
    by (rule sibling_not_ancestor[OF assms(1,2) c(2) c'(2)])
  have no2: "(uid c', uid c) \<notin> (child_rel s)\<^sup>+"
    by (rule sibling_not_ancestor[OF assms(1,2) c'(2) c(2)])
  have "v \<notin> insert c' (descendants s (uid c'))" if v: "v \<in> insert c (descendants s (uid c))" for v
  proof
    assume v': "v \<in> insert c' (descendants s (uid c'))"
    from v have a: "v = c \<or> (uid c, uid v) \<in> (child_rel s)\<^sup>+"
      by (auto simp: descendants_def)
    from v' have b: "v = c' \<or> (uid c', uid v) \<in> (child_rel s)\<^sup>+"
      by (auto simp: descendants_def)
    from a b show False
    proof (elim disjE)
      assume "v = c" "v = c'"
      with assms(5) show False by simp
    next
      assume "v = c" "(uid c', uid v) \<in> (child_rel s)\<^sup>+"
      with no2 show False by simp
    next
      assume "(uid c, uid v) \<in> (child_rel s)\<^sup>+" "v = c'"
      with no1 show False by simp
    next
      assume "(uid c, uid v) \<in> (child_rel s)\<^sup>+" "(uid c', uid v) \<in> (child_rel s)\<^sup>+"
      from ancestors_chain[OF assms(2) this] ne no1 no2 show False by blast
    qed
  qed
  then show ?thesis by blast
qed

section \<open>The downline traversal\<close>

lemma downline_loop_eq:
  "downline_loop rec cs acc =
     (if \<forall>c \<in> set cs. rec (uid c) \<noteq> None
      then Some (acc @ concat (map (\<lambda>c. c # the (rec (uid c))) cs))
      else None)"
  by (induction cs arbitrary: acc) (auto split: option.splits)

lemma getClientDownline_Suc:
  "getClientDownline (Suc n) s x =
     (if \<forall>c \<in> set (getClientsByParent s x). getClientDownline n s (uid c) \<noteq> None
      then Some (concat (map (\<lambda>c. c # the (getClientDownline n s (uid c)))
                   (getClientsByParent s x)))
      else None)"
  by (simp add: downline_loop_eq)

lemma getClientDownline_0: "getClientDownline 0 s x = None"
  by simp

declare getClientDownline.simps [simp del]

lemma fuel_Suc:
  "getClientDownline n s x = Some ds \<Longrightarrow> getClientDownline (Suc n) s x = Some ds"
proof (induction n arbitrary: x ds)
  case 0
  then show ?case by (simp add: getClientDownline_0)
next
  case (Suc n)
  let ?cs = "getClientsByParent s x"
  from Suc.prems have all: "\<forall>c \<in> set ?cs. getClientDownline n s (uid c) \<noteq> None"
    and ds: "ds = concat (map (\<lambda>c. c # the (getClientDownline n s (uid c))) ?cs)"
    unfolding getClientDownline_Suc by (auto split: if_splits)
  have same: "getClientDownline (Suc n) s (uid c) = getClientDownline n s (uid c)"
    if "c \<in> set ?cs" for c
  proof -
    from all that obtain d where "getClientDownline n s (uid c) = Some d" by blast
    with Suc.IH[OF this] show ?thesis by simp
  qed
  have eq: "concat (map (\<lambda>c. c # the (getClientDownline (Suc n) s (uid c))) ?cs) =
      concat (map (\<lambda>c. c # the (getClientDownline n s (uid c))) ?cs)"
    by (rule arg_cong[where f = concat], rule map_cong[OF refl]) (simp only: same)
  have all': "\<forall>c \<in> set ?cs. getClientDownline (Suc n) s (uid c) \<noteq> None"
    using all same by simp
  show ?case
    unfolding getClientDownline_Suc[of "Suc n"] ds eq using all' by simp
qed

lemma fuel_mono:
  assumes "getClientDownline n s x = Some ds" and "n \<le> m"
  shows "getClientDownline m s x = Some ds"
  using assms(2,1) by (induction rule: dec_induct) (auto intro: fuel_Suc)

lemma uniform_fuel:
  assumes "\<forall>c \<in> set cs. \<exists>n. getClientDownline n s (uid c) \<noteq> None"
  shows "\<exists>N. \<forall>c \<in> set cs. getClientDownline N s (uid c) \<noteq> None"
  using assms
proof (induction cs)
  case Nil
  then show ?case by simp
next
  case (Cons c cs)
  then obtain N where N: "\<forall>c \<in> set cs. getClientDownline N s (uid c) \<noteq> None"
    by auto
  from Cons.prems obtain n d where n: "getClientDownline n s (uid c) = Some d"
    by auto
  have "getClientDownline (max n N) s (uid c') \<noteq> None" if "c' \<in> set (c # cs)" for c'
  proof (cases "c' = c")
    case True
    then show ?thesis using fuel_mono[OF n, of "max n N"] by simp
  next
    case False
    with that N obtain d' where "getClientDownline N s (uid c') = Some d'" by auto
    from fuel_mono[OF this, of "max n N"] show ?thesis by simp
  qed
  then show ?case by blast
qed

lemma downline_terminates:
  assumes "acyclic (child_rel s)"
  shows "\<exists>n ds. getClientDownline n s x = Some ds"
proof -
  have "wf ((child_rel s)\<inverse>)"
    using finite_child_rel assms by (rule finite_acyclic_wf_converse)
  then show ?thesis
  proof (induction x rule: wf_induct_rule)
    case (less x)
    have "\<forall>c \<in> set (getClientsByParent s x). \<exists>n. getClientDownline n s (uid c) \<noteq> None"
    proof
      fix c
      assume "c \<in> set (getClientsByParent s x)"
      then have "(uid c, x) \<in> (child_rel s)\<inverse>"
        by (simp add: child_rel_children)
      from less.IH[OF this] show "\<exists>n. getClientDownline n s (uid c) \<noteq> None"
        by auto
    qed
    then obtain N where
      "\<forall>c \<in> set (getClientsByParent s x). getClientDownline N s (uid c) \<noteq> None"
      using uniform_fuel by blast
    then have "getClientDownline (Suc N) s x \<noteq> None"
      unfolding getClientDownline_Suc by simp
    then show ?case by blast
  qed
qed

subsection \<open>Lists made of a head followed by its block\<close>

lemma set_blocks:
  assumes "\<And>c. c \<in> set cs \<Longrightarrow> set (f c) = D c"
  shows "set (concat (map (\<lambda>c. c # f c) cs)) = (\<Union>c \<in> set cs. insert c (D c))"
  using assms by auto

lemma distinct_blocks:
  assumes "distinct cs"
    and "\<And>c. c \<in> set cs \<Longrightarrow> set (f c) = D c"
    and "\<And>c. c \<in> set cs \<Longrightarrow> distinct (f c)"
    and "\<And>c. c \<in> set cs \<Longrightarrow> c \<notin> D c"
    and "\<And>c c'. c \<in> set cs \<Longrightarrow> c' \<in> set cs \<Longrightarrow> c \<noteq> c' \<Longrightarrow>
           insert c (D c) \<inter> insert c' (D c') = {}"
  shows "distinct (concat (map (\<lambda>c. c # f c) cs))"
  using assms
proof (induction cs)
  case Nil
  then show ?case by simp
next
  case (Cons c cs)
  have rest: "distinct (concat (map (\<lambda>c. c # f c) cs))"
    using Cons.prems by (intro Cons.IH) auto
  have head: "distinct (c # f c)"
    using Cons.prems(2,3,4)[of c] by simp
  have "set (concat (map (\<lambda>c. c # f c) cs)) = (\<Union>c' \<in> set cs. insert c' (D c'))"
    using Cons.prems(2) by (intro set_blocks) simp
  moreover have "insert c (D c) \<inter> insert c' (D c') = {}" if "c' \<in> set cs" for c'
    using Cons.prems(1) Cons.prems(5)[of c c'] that by auto
  ultimately have "set (c # f c) \<inter> set (concat (map (\<lambda>c. c # f c) cs)) = {}"
    using Cons.prems(2)[of c] by auto
  with rest head show ?case by simp
qed

lemma segment_blocks:
  assumes "\<And>c. c \<in> set cs \<Longrightarrow> set (f c) = D c"
    and "\<And>c u. c \<in> set cs \<Longrightarrow> u \<in> set (f c) \<Longrightarrow>
           \<exists>as du bs. f c = as @ u # du @ bs \<and> set du = D u"
    and "u \<in> set (concat (map (\<lambda>c. c # f c) cs))"
  shows "\<exists>as du bs. concat (map (\<lambda>c. c # f c) cs) = as @ u # du @ bs \<and> set du = D u"
proof -
  from assms(3) obtain c where c: "c \<in> set cs" and u: "u = c \<or> u \<in> set (f c)"
    by auto
  from c obtain pre post where cs: "cs = pre @ c # post"
    by (auto dest: split_list)
  let ?g = "\<lambda>c. c # f c"
  have whole: "concat (map ?g cs) = concat (map ?g pre) @ c # f c @ concat (map ?g post)"
    unfolding cs by simp
  from u show ?thesis
  proof
    assume "u = c"
    then show ?thesis
      using whole assms(1)[OF c] by blast
  next
    assume "u \<in> set (f c)"
    from assms(2)[OF c this] obtain as du bs where
      fc: "f c = as @ u # du @ bs" and du: "set du = D u"
      by blast
    have "concat (map ?g cs) =
        (concat (map ?g pre) @ c # as) @ u # du @ (bs @ concat (map ?g post))"
      unfolding whole fc by simp
    with du show ?thesis by blast
  qed
qed

lemma downline_correct:
  assumes "acyclic (child_rel s)" and "distinct (map uid s)"
  shows "getClientDownline n s x = Some ds \<Longrightarrow>
     set ds = descendants s x \<and> distinct ds \<and>
     (\<forall>u \<in> set ds. \<exists>as du bs. ds = as @ u # du @ bs \<and> set du = descendants s (uid u))"
proof (induction n arbitrary: x ds)
  case 0
  then show ?case by (simp add: getClientDownline_0)
next
  case (Suc n)
  let ?cs = "getClientsByParent s x"
  let ?f = "\<lambda>c. the (getClientDownline n s (uid c))"
  let ?D = "\<lambda>u. descendants s (uid u)"
  from Suc.prems have all: "\<forall>c \<in> set ?cs. getClientDownline n s (uid c) \<noteq> None"
    and ds: "ds = concat (map (\<lambda>c. c # ?f c) ?cs)"
    unfolding getClientDownline_Suc by (auto split: if_splits)
  have ih: "set (?f c) = ?D c \<and> distinct (?f c) \<and>
      (\<forall>u \<in> set (?f c). \<exists>as du bs. ?f c = as @ u # du @ bs \<and> set du = ?D u)"
    if "c \<in> set ?cs" for c
  proof -
    from all that obtain d where d: "getClientDownline n s (uid c) = Some d" by blast
    from Suc.IH[OF d] d show ?thesis by simp
  qed
  have "distinct s"
    using assms(2) by (simp add: distinct_map)
  then have dcs: "distinct ?cs"
    by (simp add: getClientsByParent_def)
  have sets: "set (?f c) = ?D c" if "c \<in> set ?cs" for c
    using ih[OF that] by blast
  have 1: "set ds = descendants s x"
    unfolding ds descendants_unfold[OF assms(2), of x]
    by (rule set_blocks) (rule sets)
  have 2: "distinct ds"
    unfolding ds
  proof (rule distinct_blocks[where D = ?D])
    show "distinct ?cs" by (rule dcs)
    show "set (?f c) = ?D c" if "c \<in> set ?cs" for c
      using that by (rule sets)
    show "distinct (?f c)" if "c \<in> set ?cs" for c
      using ih[OF that] by blast
    show "c \<notin> ?D c" if "c \<in> set ?cs" for c
      by (rule not_own_descendant[OF assms(1)])
    show "insert c (?D c) \<inter> insert c' (?D c') = {}"
      if "c \<in> set ?cs" "c' \<in> set ?cs" "c \<noteq> c'" for c c'
      using that by (rule sibling_disjoint[OF assms])
  qed
  have 3: "\<exists>as du bs. ds = as @ u # du @ bs \<and> set du = ?D u" if "u \<in> set ds" for u
    unfolding ds
  proof (rule segment_blocks[where D = ?D])
    show "set (?f c) = ?D c" if "c \<in> set ?cs" for c
      using that by (rule sets)
    show "\<exists>as du bs. ?f c = as @ v # du @ bs \<and> set du = ?D v"
      if "c \<in> set ?cs" "v \<in> set (?f c)" for c v
      using ih[OF that(1)] that(2) by blast
    show "u \<in> set (concat (map (\<lambda>c. c # ?f c) ?cs))"
      using that unfolding ds .
  qed
  from 1 2 3 show ?case by blast
qed

lemma descendants_subset: "descendants s x \<subseteq> set s"
  by (auto simp: descendants_def)

section \<open>The claims\<close>

subsection \<open>C1: The capacity invariant under placement\<close>

text \<open>
  C1 as amended. Take a store in which every node that names a parent sits in \<open>left\<close>
  or \<open>right\<close> and no two children of a parent share a position, and a fresh
  identifier. After a successful \<open>createClient\<close> that supplies no explicit position, or
  one that is available under the parent, and after a \<open>createClientWithPayment\<close> whose
  new node has a position (or no parent), the store has the same shape, and every
  node, stored or not, has at most two children with pairwise different positions.
\<close>

theorem placement_preserves_capacity:
  assumes "tree_ok s" and "newId \<notin> uid ` set s"
  shows "(\<forall>u s'. createClient newId h client callerId s = (Inr u, s') \<and>
            (client_position client = None \<or>
             (\<exists>p q. js_or (client_parentId client) callerId = Some p \<and>
                    client_position client = Some q \<and> q \<in> set (getAvailablePositions s p)))
          \<longrightarrow> tree_ok s' \<and> capacity_ok s' \<and> (\<forall>p. node_capacity s' p))
       \<and> (\<forall>u s'. createClientWithPayment newId h client callerId s = (Inr u, s') \<and>
            (parentId u = None \<or> position u \<noteq> None)
          \<longrightarrow> tree_ok s' \<and> capacity_ok s' \<and> (\<forall>p. node_capacity s' p))"
proof -
  have fresh: "users_set u s = s @ [u]" if "uid u = newId" for u
    using users_set_fresh[OF assms(2) that] .
  have good: "tree_ok s' \<and> capacity_ok s' \<and> (\<forall>p. node_capacity s' p)" if "tree_ok s'" for s'
    using that tree_ok_capacity_ok[OF that] tree_ok_capacity[OF that] by blast
  have A: "tree_ok s'"
    if run: "createClient newId h client callerId s = (Inr u, s')"
      and req: "client_position client = None \<or>
             (\<exists>p q. js_or (client_parentId client) callerId = Some p \<and>
                    client_position client = Some q \<and> q \<in> set (getAvailablePositions s p))"
    for u s'
  proof (cases "truthy (js_or (client_parentId client) callerId)")
    case False
    have "createClient newId h client callerId s =
        (Inr (client_user newId h client None None), s @ [client_user newId h client None None])"
      using createClient_no_parent[OF False, of newId h s]
        fresh[of "client_user newId h client None None"]
      by (simp only: uid_client_user)
    then have "s' = s @ [client_user newId h client None None]"
      unfolding run by simp
    then show ?thesis
      using tree_ok_append_client_user[OF assms(1), of None] by simp
  next
    case True
    then obtain p where eff: "js_or (client_parentId client) callerId = Some p" and ne: "p \<noteq> []"
      by (cases "js_or (client_parentId client) callerId") auto
    show ?thesis
    proof (cases "getAvailablePositions s p")
      case Nil
      then show ?thesis
        using run createClient_full[OF eff ne Nil, of newId h] by simp
    next
      case (Cons a as)
      let ?pos = "Some (case client_position client of Some q \<Rightarrow> slot_str q | None \<Rightarrow> slot_str a)"
      have "createClient newId h client callerId s =
          (Inr (client_user newId h client (Some p) ?pos),
           s @ [client_user newId h client (Some p) ?pos])"
        using createClient_placed[OF eff ne Cons, of newId h]
          fresh[of "client_user newId h client (Some p) ?pos"]
        by (simp only: uid_client_user)
      then have s': "s' = s @ [client_user newId h client (Some p) ?pos]"
        unfolding run by simp
      have "\<exists>q. ?pos = Some (slot_str q) \<and> q \<in> set (getAvailablePositions s p)"
      proof (cases "client_position client")
        case None
        then show ?thesis using Cons by auto
      next
        case (Some q)
        with req eff have "q \<in> set (getAvailablePositions s p)" by auto
        with Some show ?thesis by auto
      qed
      then show ?thesis
        unfolding s' by (intro tree_ok_append_client_user[OF assms(1)]) blast
    qed
  qed
  have B: "tree_ok s'"
    if run: "createClientWithPayment newId h client callerId s = (Inr u, s')"
      and placed: "parentId u = None \<or> position u \<noteq> None"
    for u s'
  proof -
    obtain parent pos where
      eq: "createClientWithPayment newId h client callerId s =
         (Inr (client_user newId h client parent pos),
          users_set (client_user newId h client parent pos) s)"
      and tri: "parent = None \<or> pos = None \<or>
        (\<exists>p q. parent = Some p \<and> pos = Some (slot_str q) \<and>
               q \<in> set (getAvailablePositions s p))"
      using cwp_cases[of newId h client callerId s] by (elim exE conjE)
    have "createClientWithPayment newId h client callerId s =
         (Inr (client_user newId h client parent pos),
          s @ [client_user newId h client parent pos])"
      using eq fresh[of "client_user newId h client parent pos"]
      by (simp only: uid_client_user)
    then have u: "u = client_user newId h client parent pos"
      and s': "s' = s @ [client_user newId h client parent pos]"
      unfolding run by simp_all
    from placed u have "parent = None \<or> pos \<noteq> None" by simp
    with tri have "parent = None \<or>
        (\<exists>p q. parent = Some p \<and> pos = Some (slot_str q) \<and>
               q \<in> set (getAvailablePositions s p))"
      by blast
    then show ?thesis
      unfolding s' by (rule tree_ok_append_client_user[OF assms(1)])
  qed
  show ?thesis
    using A B good by blast
qed

theorem placement_preserves_capacity_witness:
  "tree_ok store_one
   \<and> ''N'' \<notin> uid ` set store_one
   \<and> createClient ''N'' ''h'' (request ''n'' (Some ''A'') None) (Some ''A'') store_one =
       (Inr (client_user ''N'' ''h'' (request ''n'' (Some ''A'') None) (Some ''A'') (Some ''right'')),
        store_one @ [client_user ''N'' ''h'' (request ''n'' (Some ''A'') None) (Some ''A'')
                       (Some ''right'')])
   \<and> capacity_ok (store_one @ [client_user ''N'' ''h'' (request ''n'' (Some ''A'') None)
                                 (Some ''A'') (Some ''right'')])
   \<and> createClientWithPayment ''N'' ''h'' (request ''n'' (Some ''A'') None) (Some ''A'') store_one =
       (Inr (client_user ''N'' ''h'' (request ''n'' (Some ''A'') None) (Some ''A'') (Some ''right'')),
        store_one @ [client_user ''N'' ''h'' (request ''n'' (Some ''A'') None) (Some ''A'')
                       (Some ''right'')])"
proof -
  let ?req = "request ''n'' (Some ''A'') None"
  let ?u = "client_user ''N'' ''h'' ?req (Some ''A'') (Some ''right'')"
  have tok: "tree_ok store_one"
    by (simp add: tree_ok_def store_defs getClientsByParent_def)
  have fresh: "''N'' \<notin> uid ` set store_one"
    by (simp add: store_defs)
  have par: "js_or (client_parentId ?req) (Some ''A'') = Some ''A''"
    by (simp add: js_or_def)
  have ne: "''A'' \<noteq> []" by simp
  have av: "getAvailablePositions store_one ''A'' = Right # []"
    by (simp add: store_defs query_defs)
  have app: "users_set ?u store_one = store_one @ [?u]"
    by (rule users_set_fresh[OF fresh]) simp
  have run1: "createClient ''N'' ''h'' ?req (Some ''A'') store_one = (Inr ?u, store_one @ [?u])"
    using createClient_placed[OF par ne av, of "''N''" "''h''"] app by simp
  have run2: "createClientWithPayment ''N'' ''h'' ?req (Some ''A'') store_one =
      (Inr ?u, store_one @ [?u])"
    using cwp_direct[OF par ne av, of "''N''" "''h''"] app by simp
  have cond1: "client_position ?req = None \<or>
      (\<exists>p q. js_or (client_parentId ?req) (Some ''A'') = Some p \<and>
             client_position ?req = Some q \<and> q \<in> set (getAvailablePositions store_one p))"
    by simp
  note T = placement_preserves_capacity[OF tok fresh, of "''h''" ?req "Some ''A''",
      THEN conjunct1, THEN spec, THEN spec, THEN mp, OF conjI[OF run1 cond1]]
  from tok fresh run1 T[THEN conjunct2, THEN conjunct1] run2
  show ?thesis by (intro conjI)
qed

text \<open>
  C1 as stated fails on both methods, each time from a store that has the property.
  In \<open>store_full\<close> no slot is available anywhere and \<open>createClientWithPayment\<close> gives the
  administrator \<open>A\<close> a third child, stored without a position. In \<open>store_one\<close> the left
  slot of \<open>A\<close> is taken and \<open>createClient\<close>, asked for \<open>left\<close>, stores a second child of
  \<open>A\<close> in \<open>left\<close>.
\<close>

theorem capacity_counterexample:
  "capacity_ok store_full
   \<and> \<not> capacity_ok (snd (createClientWithPayment ''N'' ''h'' (request ''n'' (Some ''A'') None)
                            (Some ''A'') store_full))
   \<and> map position (getClientsByParent
        (snd (createClientWithPayment ''N'' ''h'' (request ''n'' (Some ''A'') None)
                (Some ''A'') store_full)) ''A'') = [Some ''left'', Some ''right'', None]
   \<and> capacity_ok store_one
   \<and> \<not> capacity_ok (snd (createClient ''N'' ''h'' (request ''n'' (Some ''A'') (Some Left))
                            (Some ''A'') store_one))
   \<and> map position (getClientsByParent
        (snd (createClient ''N'' ''h'' (request ''n'' (Some ''A'') (Some Left))
                (Some ''A'') store_one)) ''A'') = [Some ''left'', Some ''left'']"
proof -
  let ?r1 = "request ''n'' (Some ''A'') None"
  let ?u1 = "client_user ''N'' ''h'' ?r1 (Some ''A'') None"
  let ?r2 = "request ''n'' (Some ''A'') (Some Left)"
  let ?u2 = "client_user ''N'' ''h'' ?r2 (Some ''A'') (Some ''left'')"
  have A: "getAvailablePositions store_full ''A'' = []"
    and B: "getAvailablePositions store_full ''B'' = []"
    and cl: "getAllClients store_full = [node ''B'' ''client'' (Some ''A'') (Some ''left'')]"
    and A1: "getAvailablePositions store_one ''A'' = [Right]"
    by (simp_all add: store_defs query_defs)
  have uB: "uid (node ''B'' ''client'' (Some ''A'') (Some ''left'')) = ''B''"
    by (simp add: node_def)
  have f1: "''N'' \<notin> uid ` set store_full" and f2: "''N'' \<notin> uid ` set store_one"
    by (simp_all add: store_defs)
  have "createClientWithPayment ''N'' ''h'' ?r1 (Some ''A'') store_full =
      (Inr ?u1, users_set ?u1 store_full)"
    by (simp add: createClientWithPayment_def js_or_def Let_def A B cl uB)
  then have run1: "snd (createClientWithPayment ''N'' ''h'' ?r1 (Some ''A'') store_full) =
      store_full @ [?u1]"
    using users_set_fresh[OF f1, of ?u1] by simp
  have "createClient ''N'' ''h'' ?r2 (Some ''A'') store_one = (Inr ?u2, users_set ?u2 store_one)"
    by (simp add: createClient_def js_or_def Let_def A1)
  then have run2: "snd (createClient ''N'' ''h'' ?r2 (Some ''A'') store_one) = store_one @ [?u2]"
    using users_set_fresh[OF f2, of ?u2] by simp
  have c1: "map position (getClientsByParent (store_full @ [?u1]) ''A'') =
      [Some ''left'', Some ''right'', None]"
    by (simp add: getClientsByParent_def store_defs)
  have c2: "map position (getClientsByParent (store_one @ [?u2]) ''A'') =
      [Some ''left'', Some ''left'']"
    by (simp add: getClientsByParent_def store_defs)
  have mem1: "node ''A'' ''admin'' None None \<in> set (store_full @ [?u1])"
    and mem2: "node ''A'' ''admin'' None None \<in> set (store_one @ [?u2])"
    by (simp_all add: store_defs)
  have uA: "uid (node ''A'' ''admin'' None None) = ''A''"
    by (simp add: node_def)
  have n1: "\<not> node_capacity (store_full @ [?u1]) ''A''"
    using arg_cong[OF c1, of length] by (simp add: node_capacity_def)
  have n2: "\<not> node_capacity (store_one @ [?u2]) ''A''"
    by (simp add: node_capacity_def c2)
  have bad1: "\<not> capacity_ok (store_full @ [?u1])"
    unfolding capacity_ok_def list_all_iff using mem1 n1 uA by metis
  have bad2: "\<not> capacity_ok (store_one @ [?u2])"
    unfolding capacity_ok_def list_all_iff using mem2 n2 uA by metis
  have ok1: "capacity_ok store_full"
    by (simp add: capacity_ok_def node_capacity_def getClientsByParent_def store_defs)
  have ok2: "capacity_ok store_one"
    by (simp add: capacity_ok_def node_capacity_def getClientsByParent_def store_defs)
  show ?thesis
    unfolding run1 run2 using ok1 bad1 c1 ok2 bad2 c2 by (intro conjI)
qed

subsection \<open>C2: Explicit positions\<close>

text \<open>
  C2 as amended. \<open>createClientWithPayment\<close> never reads the requested position: under a
  parent with a free slot the node gets the parent's first available slot. So the
  requested slot is the one assigned exactly when it is that first slot; a requested
  slot that is occupied is never assigned, the node then sits in the other, free slot.
  \<open>createClient\<close> assigns a requested slot that is a member of the parent's available
  set.
\<close>

theorem explicit_position:
  assumes "js_or (client_parentId client) adminId = Some p" and "p \<noteq> []"
    and "client_position client = Some q"
    and "getAvailablePositions s p = a # as"
  shows "createClientWithPayment newId h client adminId s =
           (Inr (client_user newId h client (Some p) (Some (slot_str a))),
            users_set (client_user newId h client (Some p) (Some (slot_str a))) s)
       \<and> a \<in> set (getAvailablePositions s p)
       \<and> a = (if Left \<in> set (getAvailablePositions s p) then Left else Right)
       \<and> (position (client_user newId h client (Some p) (Some (slot_str a))) = Some (slot_str q)
            \<longleftrightarrow> q = a)
       \<and> (q \<notin> set (getAvailablePositions s p) \<longrightarrow> a \<noteq> q)
       \<and> (q \<in> set (getAvailablePositions s p) \<longrightarrow>
            createClient newId h client adminId s =
              (Inr (client_user newId h client (Some p) (Some (slot_str q))),
               users_set (client_user newId h client (Some p) (Some (slot_str q))) s))"
proof -
  have 1: "createClientWithPayment newId h client adminId s =
           (Inr (client_user newId h client (Some p) (Some (slot_str a))),
            users_set (client_user newId h client (Some p) (Some (slot_str a))) s)"
    by (rule cwp_direct[OF assms(1,2,4)])
  have 2: "a \<in> set (getAvailablePositions s p)"
    using assms(4) by simp
  have 3: "a = (if Left \<in> set (getAvailablePositions s p) then Left else Right)"
    using assms(4) by (rule avail_hd)
  have 4: "position (client_user newId h client (Some p) (Some (slot_str a))) = Some (slot_str q)
            \<longleftrightarrow> q = a"
    by auto
  have 5: "q \<notin> set (getAvailablePositions s p) \<longrightarrow> a \<noteq> q"
    using 2 by blast
  have 6: "q \<in> set (getAvailablePositions s p) \<longrightarrow>
            createClient newId h client adminId s =
              (Inr (client_user newId h client (Some p) (Some (slot_str q))),
               users_set (client_user newId h client (Some p) (Some (slot_str q))) s)"
    using createClient_placed[OF assms(1,2,4), of newId h] assms(3) by simp
  from 1 2 3 4 5 6 show ?thesis by (intro conjI)
qed

theorem explicit_position_witness:
  "getAvailablePositions store_one ''A'' = [Right]
   \<and> createClientWithPayment ''N'' ''h'' (request ''n'' (Some ''A'') (Some Left)) (Some ''A'')
         store_one =
       (Inr (client_user ''N'' ''h'' (request ''n'' (Some ''A'') (Some Left)) (Some ''A'')
               (Some ''right'')),
        users_set (client_user ''N'' ''h'' (request ''n'' (Some ''A'') (Some Left)) (Some ''A'')
                     (Some ''right'')) store_one)
   \<and> createClient ''N'' ''h'' (request ''n'' (Some ''A'') (Some Right)) (Some ''A'') store_one =
       (Inr (client_user ''N'' ''h'' (request ''n'' (Some ''A'') (Some Right)) (Some ''A'')
               (Some ''right'')),
        users_set (client_user ''N'' ''h'' (request ''n'' (Some ''A'') (Some Right)) (Some ''A'')
                     (Some ''right'')) store_one)"
proof -
  have pl: "js_or (client_parentId (request ''n'' (Some ''A'') (Some Left))) (Some ''A'') = Some ''A''"
    and pr: "js_or (client_parentId (request ''n'' (Some ''A'') (Some Right))) (Some ''A'') = Some ''A''"
    by (simp_all add: js_or_def)
  have ne: "''A'' \<noteq> []" by simp
  have ql: "client_position (request ''n'' (Some ''A'') (Some Left)) = Some Left"
    and qr: "client_position (request ''n'' (Some ''A'') (Some Right)) = Some Right"
    by simp_all
  have av: "getAvailablePositions store_one ''A'' = Right # []"
    by (simp add: store_defs query_defs)
  have mem: "Right \<in> set (getAvailablePositions store_one ''A'')"
    by (simp add: av)
  note L = explicit_position[OF pl ne ql av, of "''N''" "''h''", THEN conjunct1]
  note R = explicit_position[OF pr ne qr av, of "''N''" "''h''",
      THEN conjunct2, THEN conjunct2, THEN conjunct2, THEN conjunct2, THEN conjunct2,
      THEN mp, OF mem]
  from L R av show ?thesis by simp
qed

text \<open>
  C2 as stated fails on both methods. With both slots of \<open>A\<close> free,
  \<open>createClientWithPayment\<close> asked for \<open>right\<close> stores the node in \<open>left\<close>, although
  \<open>right\<close> is available. With \<open>left\<close> of \<open>A\<close> occupied and \<open>right\<close> free, \<open>createClient\<close>
  asked for \<open>left\<close> stores the node in \<open>left\<close>, the occupied slot.
\<close>

theorem explicit_position_counterexample:
  "getAvailablePositions store_admin ''A'' = [Left, Right]
   \<and> fst (createClientWithPayment ''N'' ''h'' (request ''n'' (Some ''A'') (Some Right))
            (Some ''A'') store_admin) =
       Inr (client_user ''N'' ''h'' (request ''n'' (Some ''A'') (Some Right)) (Some ''A'')
              (Some ''left''))
   \<and> getAvailablePositions store_one ''A'' = [Right]
   \<and> fst (createClient ''N'' ''h'' (request ''n'' (Some ''A'') (Some Left)) (Some ''A'')
            store_one) =
       Inr (client_user ''N'' ''h'' (request ''n'' (Some ''A'') (Some Left)) (Some ''A'')
              (Some ''left''))"
proof -
  have a: "getAvailablePositions store_admin ''A'' = [Left, Right]"
    by (simp add: store_defs query_defs)
  have b: "getAvailablePositions store_one ''A'' = [Right]"
    by (simp add: store_defs query_defs)
  have c: "fst (createClientWithPayment ''N'' ''h'' (request ''n'' (Some ''A'') (Some Right))
            (Some ''A'') store_admin) =
       Inr (client_user ''N'' ''h'' (request ''n'' (Some ''A'') (Some Right)) (Some ''A'')
              (Some ''left''))"
    by (simp add: createClientWithPayment_def js_or_def a Let_def)
  have d: "fst (createClient ''N'' ''h'' (request ''n'' (Some ''A'') (Some Left)) (Some ''A'')
            store_one) =
       Inr (client_user ''N'' ''h'' (request ''n'' (Some ''A'') (Some Left)) (Some ''A'')
              (Some ''left''))"
    by (simp add: createClient_def js_or_def b Let_def)
  from a b c d show ?thesis by (intro conjI)
qed

subsection \<open>C3: A store without a free slot\<close>

text \<open>
  C3 as amended. When the requested parent, every stored client and the administrator
  all have no available slot, \<open>createClientWithPayment\<close> does not fail: it stores the
  new node under the administrator with no position. The method has no failing branch
  at all.
\<close>

theorem full_tree_placement:
  assumes "js_or (client_parentId client) adminId = Some p" and "p \<noteq> []"
    and "getAvailablePositions s p = []"
    and "\<forall>c \<in> set (getAllClients s). getAvailablePositions s (uid c) = []"
    and "adminId = Some a" and "a \<noteq> []"
    and "getAvailablePositions s a = []"
  shows "createClientWithPayment newId h client adminId s =
           (Inr (client_user newId h client (Some a) None),
            users_set (client_user newId h client (Some a) None) s)
       \<and> (\<forall>newId' h' client' adminId' s' e.
             fst (createClientWithPayment newId' h' client' adminId' s') \<noteq> Inl e)"
proof
  show "createClientWithPayment newId h client adminId s =
           (Inr (client_user newId h client (Some a) None),
            users_set (client_user newId h client (Some a) None) s)"
    using cwp_anchor[OF assms(1-6), of newId h] assms(7) by simp
next
  show "\<forall>newId' h' client' adminId' s' e.
             fst (createClientWithPayment newId' h' client' adminId' s') \<noteq> Inl e"
  proof (intro allI)
    fix newId' h' client' adminId' s' e
    obtain parent pos where "createClientWithPayment newId' h' client' adminId' s' =
     (Inr (client_user newId' h' client' parent pos),
      users_set (client_user newId' h' client' parent pos) s')"
      using cwp_result by blast
    then show "fst (createClientWithPayment newId' h' client' adminId' s') \<noteq> Inl e"
      by simp
  qed
qed

theorem full_tree_placement_witness:
  "getAvailablePositions store_full ''A'' = []
   \<and> map uid (getAllClients store_full) = [''B'']
   \<and> getAvailablePositions store_full ''B'' = []
   \<and> createClientWithPayment ''N'' ''h'' (request ''n'' None None) (Some ''A'') store_full =
       (Inr (client_user ''N'' ''h'' (request ''n'' None None) (Some ''A'') None),
        users_set (client_user ''N'' ''h'' (request ''n'' None None) (Some ''A'') None)
          store_full)"
proof -
  have par: "js_or (client_parentId (request ''n'' None None)) (Some ''A'') = Some ''A''"
    by (simp add: js_or_def)
  have ne: "''A'' \<noteq> []" by simp
  have A: "getAvailablePositions store_full ''A'' = []"
    by (simp add: store_defs query_defs)
  have B: "getAvailablePositions store_full ''B'' = []"
    by (simp add: store_defs query_defs)
  have cl: "getAllClients store_full = [node ''B'' ''client'' (Some ''A'') (Some ''left'')]"
    by (simp add: store_defs query_defs)
  have uB: "uid (node ''B'' ''client'' (Some ''A'') (Some ''left'')) = ''B''"
    by (simp add: node_def)
  have all: "\<forall>c \<in> set (getAllClients store_full). getAvailablePositions store_full (uid c) = []"
    unfolding cl using B uB by simp
  have ids: "map uid (getAllClients store_full) = [''B'']"
    unfolding cl using uB by simp
  note T = full_tree_placement[OF par ne A all refl ne A, of "''N''" "''h''", THEN conjunct1]
  from A ids B T show ?thesis by (intro conjI)
qed

text \<open>
  C3 as stated fails. In \<open>store_full\<close> the requested parent \<open>A\<close> (the administrator) and
  the only client \<open>B\<close> have no available slot; the call does not fail and the store
  gains a node under \<open>A\<close> with a null \<open>position\<close>.
\<close>

theorem tree_full_counterexample:
  "getAvailablePositions store_full ''A'' = []
   \<and> map uid (getAllClients store_full) = [''B'']
   \<and> getAvailablePositions store_full ''B'' = []
   \<and> createClientWithPayment ''N'' ''h'' (request ''n'' (Some ''A'') None) (Some ''A'')
        store_full =
       (Inr (client_user ''N'' ''h'' (request ''n'' (Some ''A'') None) (Some ''A'') None),
        store_full @ [client_user ''N'' ''h'' (request ''n'' (Some ''A'') None) (Some ''A'') None])"
proof -
  have A: "getAvailablePositions store_full ''A'' = []"
    by (simp add: store_defs query_defs)
  have B: "getAvailablePositions store_full ''B'' = []"
    by (simp add: store_defs query_defs)
  have cl: "getAllClients store_full = [node ''B'' ''client'' (Some ''A'') (Some ''left'')]"
    by (simp add: store_defs query_defs)
  have uB: "uid (node ''B'' ''client'' (Some ''A'') (Some ''left'')) = ''B''"
    by (simp add: node_def)
  have ids: "map uid (getAllClients store_full) = [''B'']"
    unfolding cl using uB by simp
  have fresh: "''N'' \<notin> uid ` set store_full"
    by (simp add: store_defs)
  have "createClientWithPayment ''N'' ''h'' (request ''n'' (Some ''A'') None) (Some ''A'')
        store_full =
       (Inr (client_user ''N'' ''h'' (request ''n'' (Some ''A'') None) (Some ''A'') None),
        users_set (client_user ''N'' ''h'' (request ''n'' (Some ''A'') None) (Some ''A'') None)
          store_full)"
    by (simp add: createClientWithPayment_def js_or_def Let_def A B cl uB)
  then have run: "createClientWithPayment ''N'' ''h'' (request ''n'' (Some ''A'') None) (Some ''A'')
        store_full =
       (Inr (client_user ''N'' ''h'' (request ''n'' (Some ''A'') None) (Some ''A'') None),
        store_full @ [client_user ''N'' ''h'' (request ''n'' (Some ''A'') None) (Some ''A'') None])"
    using users_set_fresh[OF fresh] by simp
  from A ids B run show ?thesis by (intro conjI)
qed

subsection \<open>C4: The fallback search\<close>



subsection \<open>C5: Placement without an explicit position\<close>



subsection \<open>C6: Available positions\<close>

text \<open>
  C6. \<open>getAvailablePositions\<close> takes the children of \<open>parentId\<close> (the stored nodes whose
  \<open>parentId\<close> equals the argument) and returns \<open>{left, right}\<close> minus their position
  values: both slots when there is no child, none when both positions are occupied.
  The function only reads the store: it is a function of the store and returns none.
\<close>

theorem getAvailablePositions_spec:
  "set (getClientsByParent s pid) = {u \<in> set s. parentId u = Some pid}
   \<and> slot_str ` set (getAvailablePositions s pid) =
       {''left'', ''right''} - {v. \<exists>c \<in> set (getClientsByParent s pid). position c = Some v}
   \<and> (getClientsByParent s pid = [] \<longrightarrow> getAvailablePositions s pid = [Left, Right])
   \<and> ((\<exists>c \<in> set (getClientsByParent s pid). position c = Some ''left'') \<and>
       (\<exists>c \<in> set (getClientsByParent s pid). position c = Some ''right'')
        \<longrightarrow> getAvailablePositions s pid = [])"
proof (intro conjI impI)
  show "set (getClientsByParent s pid) = {u \<in> set s. parentId u = Some pid}"
    by (auto simp: getClientsByParent_def)
next
  have mem: "\<And>q. q \<in> set (getAvailablePositions s pid) \<longleftrightarrow>
      \<not> (\<exists>c \<in> set (getClientsByParent s pid). position c = Some (slot_str q))"
    by (auto simp: avail_iff getClientsByParent_def)
  have all: "{''left'', ''right''} = slot_str ` UNIV"
  proof -
    have "(UNIV :: slot set) = {Left, Right}" using slot.exhaust by auto
    then have "slot_str ` UNIV = slot_str ` {Left, Right}" by simp
    then show ?thesis by simp
  qed
  show "slot_str ` set (getAvailablePositions s pid) =
      {''left'', ''right''} - {v. \<exists>c \<in> set (getClientsByParent s pid). position c = Some v}"
    unfolding all using mem by (auto simp: image_iff)
next
  assume "getClientsByParent s pid = []"
  then show "getAvailablePositions s pid = [Left, Right]"
    by (simp add: getAvailablePositions_def)
next
  assume "(\<exists>c \<in> set (getClientsByParent s pid). position c = Some ''left'') \<and>
       (\<exists>c \<in> set (getClientsByParent s pid). position c = Some ''right'')"
  then show "getAvailablePositions s pid = []"
    by (auto simp: avail_Nil_iff getClientsByParent_def)
qed

theorem getAvailablePositions_spec_witness:
  "getClientsByParent store_admin ''A'' = []
   \<and> getAvailablePositions store_admin ''A'' = [Left, Right]
   \<and> (\<exists>c \<in> set (getClientsByParent store_scenario ''B''). position c = Some ''left'')
   \<and> (\<exists>c \<in> set (getClientsByParent store_scenario ''B''). position c = Some ''right'')
   \<and> getAvailablePositions store_scenario ''B'' = []
   \<and> slot_str ` set (getAvailablePositions store_one ''A'') = {''right''}"
proof -
  have a: "getClientsByParent store_admin ''A'' = []"
    by (simp add: store_defs getClientsByParent_def)
  have b: "\<exists>c \<in> set (getClientsByParent store_scenario ''B''). position c = Some ''left''"
    by (simp add: store_defs getClientsByParent_def)
  have c: "\<exists>c \<in> set (getClientsByParent store_scenario ''B''). position c = Some ''right''"
    by (simp add: store_defs getClientsByParent_def)
  have d: "{v. \<exists>c \<in> set (getClientsByParent store_one ''A''). position c = Some v} = {''left''}"
    by (auto simp: store_defs getClientsByParent_def)
  have e: "{''left'', ''right''} - {''left''} = {''right''}"
    by auto
  show ?thesis
    using a b c d e getAvailablePositions_spec[of store_admin "''A''"]
      getAvailablePositions_spec[of store_scenario "''B''"]
      getAvailablePositions_spec[of store_one "''A''"]
    by simp
qed

subsection \<open>C7: Unknown parents\<close>


subsection \<open>C8: Outcomes of a placement\<close>

text \<open>
  C8 as amended, for a request with a parent and a fresh identifier. \<open>createClient\<close>
  either throws and leaves the store as it was (exactly when the parent has no
  available slot), or appends one node that records both the parent and a position.
  \<open>createClientWithPayment\<close> never throws and always appends one node that records a
  parent; the node records a position exactly when the requested parent, some stored
  client or the administrator has an available slot.
\<close>

theorem placement_outcomes:
  assumes "js_or (client_parentId client) callerId = Some p" and "p \<noteq> []"
    and "newId \<notin> uid ` set s"
    and "\<forall>u \<in> set s. uid u \<noteq> []"
  shows "(getAvailablePositions s p = [] \<longrightarrow>
            createClient newId h client callerId s =
              (Inl (Error ''Parent already has 2 children''), s))
       \<and> (getAvailablePositions s p \<noteq> [] \<longrightarrow>
            (\<exists>u. createClient newId h client callerId s = (Inr u, s @ [u]) \<and>
                 uid u = newId \<and> parentId u = Some p \<and> position u \<noteq> None))
       \<and> (\<exists>u. createClientWithPayment newId h client callerId s = (Inr u, s @ [u]) \<and>
               uid u = newId \<and> parentId u \<noteq> None \<and>
               (position u \<noteq> None \<longleftrightarrow>
                  getAvailablePositions s p \<noteq> [] \<or>
                  (\<exists>c \<in> set (getAllClients s). getAvailablePositions s (uid c) \<noteq> []) \<or>
                  (\<exists>a. callerId = Some a \<and> a \<noteq> [] \<and> getAvailablePositions s a \<noteq> [])))"
proof -
  have fresh: "users_set u s = s @ [u]" if "uid u = newId" for u
    using users_set_fresh[OF assms(3) that] .
  let ?found = "getAvailablePositions s p \<noteq> [] \<or>
      (\<exists>c \<in> set (getAllClients s). getAvailablePositions s (uid c) \<noteq> []) \<or>
      (\<exists>a. callerId = Some a \<and> a \<noteq> [] \<and> getAvailablePositions s a \<noteq> [])"
  have 1: "getAvailablePositions s p = [] \<longrightarrow>
      createClient newId h client callerId s = (Inl (Error ''Parent already has 2 children''), s)"
    using createClient_full[OF assms(1,2)] by blast
  have 2: "getAvailablePositions s p \<noteq> [] \<longrightarrow>
            (\<exists>u. createClient newId h client callerId s = (Inr u, s @ [u]) \<and>
                 uid u = newId \<and> parentId u = Some p \<and> position u \<noteq> None)"
  proof
    assume "getAvailablePositions s p \<noteq> []"
    then obtain a as where av: "getAvailablePositions s p = a # as"
      by (cases "getAvailablePositions s p") auto
    let ?u = "client_user newId h client (Some p)
             (Some (case client_position client of Some q \<Rightarrow> slot_str q | None \<Rightarrow> slot_str a))"
    show "\<exists>u. createClient newId h client callerId s = (Inr u, s @ [u]) \<and>
                 uid u = newId \<and> parentId u = Some p \<and> position u \<noteq> None"
    proof (intro exI conjI)
      show "createClient newId h client callerId s = (Inr ?u, s @ [?u])"
        using createClient_placed[OF assms(1,2) av, of newId h] fresh[of ?u]
        by (simp only: uid_client_user)
      show "uid ?u = newId" by (rule uid_client_user)
      show "parentId ?u = Some p" by (rule parentId_client_user)
      show "position ?u \<noteq> None" by (simp only: position_client_user) simp
    qed
  qed
  have 3: "\<exists>u. createClientWithPayment newId h client callerId s = (Inr u, s @ [u]) \<and>
               uid u = newId \<and> parentId u \<noteq> None \<and> (position u \<noteq> None \<longleftrightarrow> ?found)"
  proof (cases "getAvailablePositions s p")
    case (Cons a as)
    let ?u = "client_user newId h client (Some p) (Some (slot_str a))"
    show ?thesis
    proof (intro exI conjI)
      show "createClientWithPayment newId h client callerId s = (Inr ?u, s @ [?u])"
        using cwp_direct[OF assms(1,2) Cons, of newId h] fresh[of ?u]
        by (simp only: uid_client_user)
      show "uid ?u = newId" by (rule uid_client_user)
      show "parentId ?u \<noteq> None" by (simp only: parentId_client_user) simp
      show "position ?u \<noteq> None \<longleftrightarrow> ?found"
        unfolding position_client_user using Cons by simp
    qed
  next
    case Nil
    show ?thesis
    proof (cases "\<exists>c \<in> set (getAllClients s). getAvailablePositions s (uid c) \<noteq> []")
      case True
      then obtain pre c post where
        split: "getAllClients s = pre @ c # post"
        and c: "getAvailablePositions s (uid c) \<noteq> []"
        and pre: "\<forall>c' \<in> set pre. \<not> getAvailablePositions s (uid c') \<noteq> []"
        using split_list_first_prop[of "getAllClients s"
            "\<lambda>c. getAvailablePositions s (uid c) \<noteq> []"]
        by blast
      from c obtain b bs where b: "getAvailablePositions s (uid c) = b # bs"
        by (cases "getAvailablePositions s (uid c)") auto
      from pre have pre': "\<forall>c' \<in> set pre. getAvailablePositions s (uid c') = []"
        by simp
      have "c \<in> set s"
        using split getAllClients_subset[of c s] by simp
      then have ne: "uid c \<noteq> []"
        using assms(4) by blast
      let ?u = "client_user newId h client (Some (uid c)) (Some (slot_str b))"
      show ?thesis
      proof (intro exI conjI)
        show "createClientWithPayment newId h client callerId s = (Inr ?u, s @ [?u])"
          using cwp_fallback[OF assms(1,2) Nil split pre' b, of newId h] fresh[of ?u]
          by (simp only: or_null_Some[OF ne] uid_client_user)
        show "uid ?u = newId" by (rule uid_client_user)
        show "parentId ?u \<noteq> None" by (simp only: parentId_client_user) simp
        show "position ?u \<noteq> None \<longleftrightarrow> ?found"
          unfolding position_client_user using True by simp
      qed
    next
      case False
      then have none: "\<forall>c \<in> set (getAllClients s). getAvailablePositions s (uid c) = []"
        by simp
      show ?thesis
      proof (cases "truthy callerId")
        case True
        then obtain a where a: "callerId = Some a" "a \<noteq> []"
          by (cases callerId) auto
        let ?pos = "case getAvailablePositions s a of [] \<Rightarrow> None | b # _ \<Rightarrow> Some (slot_str b)"
        let ?u = "client_user newId h client (Some a) ?pos"
        have pos: "?pos \<noteq> None \<longleftrightarrow> getAvailablePositions s a \<noteq> []"
          by (simp split: list.splits)
        show ?thesis
        proof (intro exI conjI)
          show "createClientWithPayment newId h client callerId s = (Inr ?u, s @ [?u])"
            using cwp_anchor[OF assms(1,2) Nil none a, of newId h] fresh[of ?u]
            by (simp only: uid_client_user)
          show "uid ?u = newId" by (rule uid_client_user)
          show "parentId ?u \<noteq> None" by (simp only: parentId_client_user) simp
          show "position ?u \<noteq> None \<longleftrightarrow> ?found"
            unfolding position_client_user pos using Nil False a by simp
        qed
      next
        case no: False
        then have "\<not> (\<exists>a. callerId = Some a \<and> a \<noteq> [] \<and> getAvailablePositions s a \<noteq> [])"
          by auto
        then have nf: "\<not> ?found"
          using Nil False by simp
        let ?u = "client_user newId h client (Some p) None"
        show ?thesis
        proof (intro exI conjI)
          show "createClientWithPayment newId h client callerId s = (Inr ?u, s @ [?u])"
            using cwp_no_anchor[OF assms(1,2) Nil none no, of newId h] fresh[of ?u]
            by (simp only: uid_client_user)
          show "uid ?u = newId" by (rule uid_client_user)
          show "parentId ?u \<noteq> None" by (simp only: parentId_client_user) simp
          show "position ?u \<noteq> None \<longleftrightarrow> ?found"
            unfolding position_client_user using nf by simp
        qed
      qed
    qed
  qed
  from 1 2 3 show ?thesis by (intro conjI)
qed

theorem placement_outcomes_witness:
  "''N'' \<notin> uid ` set store_full
   \<and> [] \<notin> set (map uid store_full)
   \<and> getAvailablePositions store_full ''A'' = []
   \<and> createClient ''N'' ''h'' (request ''n'' (Some ''A'') None) (Some ''A'') store_full =
       (Inl (Error ''Parent already has 2 children''), store_full)
   \<and> getAvailablePositions store_one ''A'' \<noteq> []
   \<and> (\<exists>u. createClient ''N'' ''h'' (request ''n'' (Some ''A'') None) (Some ''A'') store_one =
            (Inr u, store_one @ [u]) \<and>
            uid u = ''N'' \<and> parentId u = Some ''A'' \<and> position u \<noteq> None)"
proof -
  have par: "js_or (client_parentId (request ''n'' (Some ''A'') None)) (Some ''A'') = Some ''A''"
    by (simp add: js_or_def)
  have ne: "''A'' \<noteq> []" by simp
  have f1: "''N'' \<notin> uid ` set store_full" and f2: "''N'' \<notin> uid ` set store_one"
    by (simp_all add: store_defs)
  have i1: "\<forall>u \<in> set store_full. uid u \<noteq> []" and i2: "\<forall>u \<in> set store_one. uid u \<noteq> []"
    by (simp_all add: store_defs)
  have i1': "[] \<notin> set (map uid store_full)"
    by (simp add: store_defs)
  have A: "getAvailablePositions store_full ''A'' = []"
    by (simp add: store_defs query_defs)
  have A1: "getAvailablePositions store_one ''A'' \<noteq> []"
    by (simp add: store_defs query_defs)
  note T1 = placement_outcomes[OF par ne f1 i1, of "''h''", THEN conjunct1, THEN mp, OF A]
  note T2 = placement_outcomes[OF par ne f2 i2, of "''h''", THEN conjunct2, THEN conjunct1,
      THEN mp, OF A1]
  from f1 i1' A T1 A1 T2 show ?thesis by (intro conjI)
qed

text \<open>
  C8 as stated fails. In \<open>store_full\<close> no slot is available anywhere, yet
  \<open>createClientWithPayment\<close> succeeds and changes the store: the node it appends
  records the parent \<open>A\<close> and no position.
\<close>

theorem partial_placement_counterexample:
  "(\<exists>u. fst (createClientWithPayment ''N'' ''h'' (request ''n'' (Some ''A'') None) (Some ''A'')
            store_full) = Inr u)
   \<and> snd (createClientWithPayment ''N'' ''h'' (request ''n'' (Some ''A'') None) (Some ''A'')
            store_full) \<noteq> store_full
   \<and> parentId (last (snd (createClientWithPayment ''N'' ''h'' (request ''n'' (Some ''A'') None)
            (Some ''A'') store_full))) = Some ''A''
   \<and> position (last (snd (createClientWithPayment ''N'' ''h'' (request ''n'' (Some ''A'') None)
            (Some ''A'') store_full))) = None"
proof -
  have A: "getAvailablePositions store_full ''A'' = []"
    by (simp add: store_defs query_defs)
  have B: "getAvailablePositions store_full ''B'' = []"
    by (simp add: store_defs query_defs)
  have cl: "getAllClients store_full = [node ''B'' ''client'' (Some ''A'') (Some ''left'')]"
    by (simp add: store_defs query_defs)
  have uB: "uid (node ''B'' ''client'' (Some ''A'') (Some ''left'')) = ''B''"
    by (simp add: node_def)
  have fresh: "''N'' \<notin> uid ` set store_full"
    by (simp add: store_defs)
  have "createClientWithPayment ''N'' ''h'' (request ''n'' (Some ''A'') None) (Some ''A'')
        store_full =
       (Inr (client_user ''N'' ''h'' (request ''n'' (Some ''A'') None) (Some ''A'') None),
        users_set (client_user ''N'' ''h'' (request ''n'' (Some ''A'') None) (Some ''A'') None)
          store_full)"
    by (simp add: createClientWithPayment_def js_or_def Let_def A B cl uB)
  then have run: "createClientWithPayment ''N'' ''h'' (request ''n'' (Some ''A'') None) (Some ''A'')
        store_full =
       (Inr (client_user ''N'' ''h'' (request ''n'' (Some ''A'') None) (Some ''A'') None),
        store_full @ [client_user ''N'' ''h'' (request ''n'' (Some ''A'') None) (Some ''A'') None])"
    using users_set_fresh[OF fresh] by simp
  show ?thesis
    unfolding run by simp
qed

subsection \<open>C9: The downline\<close>

text \<open>
  C9. On a store whose parent links are acyclic (with the identifiers of a \<open>Map\<close>,
  which are unique), \<open>getClientDownline\<close> returns: some amount of fuel suffices, and
  with it or more the result is always the same list. The list holds exactly the
  transitive descendants of the argument, each once, and every node in it is directly
  followed by the nodes of its own downline, that is, by exactly its descendants
  (pre-order).
\<close>

theorem downline_spec:
  assumes "acyclic (child_rel s)" and "distinct (map uid s)"
  shows "\<exists>n ds. (\<forall>m \<ge> n. getClientDownline m s x = Some ds) \<and>
           set ds = descendants s x \<and>
           distinct (map uid ds) \<and>
           (\<forall>u \<in> set ds. \<exists>as du bs. ds = as @ u # du @ bs \<and>
                                     set du = descendants s (uid u))"
proof -
  from downline_terminates[OF assms(1), of x]
  obtain n ds where run: "getClientDownline n s x = Some ds"
    by blast
  have more: "\<forall>m \<ge> n. getClientDownline m s x = Some ds"
    using fuel_mono[OF run] by blast
  note ok = downline_correct[OF assms run]
  have "set ds \<subseteq> set s"
    using ok descendants_subset[of s x] by simp
  moreover have "inj_on uid (set s)"
    using assms(2) by (simp add: distinct_map)
  ultimately have "inj_on uid (set ds)"
    by (rule inj_on_subset[rotated])
  with ok have "distinct (map uid ds)"
    by (simp add: distinct_map)
  with more ok show ?thesis by blast
qed

theorem downline_spec_witness:
  "acyclic (child_rel store_scenario)
   \<and> distinct (map uid store_scenario)
   \<and> getClientDownline 3 store_scenario ''A'' =
       Some [node ''B'' ''client'' (Some ''A'') (Some ''left''),
             node ''D'' ''client'' (Some ''B'') (Some ''left''),
             node ''E'' ''client'' (Some ''B'') (Some ''right''),
             node ''C'' ''client'' (Some ''A'') (Some ''right''),
             node ''F'' ''client'' (Some ''C'') (Some ''left''),
             node ''G'' ''client'' (Some ''C'') (Some ''right'')]
   \<and> descendants store_scenario ''A'' =
       set [node ''B'' ''client'' (Some ''A'') (Some ''left''),
            node ''D'' ''client'' (Some ''B'') (Some ''left''),
            node ''E'' ''client'' (Some ''B'') (Some ''right''),
            node ''C'' ''client'' (Some ''A'') (Some ''right''),
            node ''F'' ''client'' (Some ''C'') (Some ''left''),
            node ''G'' ''client'' (Some ''C'') (Some ''right'')]"
proof -
  let ?L = "[node ''B'' ''client'' (Some ''A'') (Some ''left''),
             node ''D'' ''client'' (Some ''B'') (Some ''left''),
             node ''E'' ''client'' (Some ''B'') (Some ''right''),
             node ''C'' ''client'' (Some ''A'') (Some ''right''),
             node ''F'' ''client'' (Some ''C'') (Some ''left''),
             node ''G'' ''client'' (Some ''C'') (Some ''right'')]"
  define rank :: "string \<Rightarrow> nat" where
    "rank = (\<lambda>i. if i = ''A'' then 0 else if i = ''B'' \<or> i = ''C'' then 1 else 2)"
  have rel: "child_rel store_scenario =
      {(''A'', ''B''), (''A'', ''C''), (''B'', ''D''), (''B'', ''E''), (''C'', ''F''), (''C'', ''G'')}"
    by (simp add: child_rel_def store_defs)
  have "child_rel store_scenario \<subseteq> measure rank"
    unfolding rel by (simp add: rank_def)
  then have "wf (child_rel store_scenario)"
    by (rule wf_subset[OF wf_measure])
  then have ac: "acyclic (child_rel store_scenario)"
    by (rule wf_acyclic)
  have di: "distinct (map uid store_scenario)"
    by (simp add: store_defs)
  have kids:
    "getClientsByParent store_scenario ''A'' =
       [node ''B'' ''client'' (Some ''A'') (Some ''left''),
        node ''C'' ''client'' (Some ''A'') (Some ''right'')]"
    "getClientsByParent store_scenario ''B'' =
       [node ''D'' ''client'' (Some ''B'') (Some ''left''),
        node ''E'' ''client'' (Some ''B'') (Some ''right'')]"
    "getClientsByParent store_scenario ''C'' =
       [node ''F'' ''client'' (Some ''C'') (Some ''left''),
        node ''G'' ''client'' (Some ''C'') (Some ''right'')]"
    "getClientsByParent store_scenario ''D'' = []"
    "getClientsByParent store_scenario ''E'' = []"
    "getClientsByParent store_scenario ''F'' = []"
    "getClientsByParent store_scenario ''G'' = []"
    by (simp_all add: getClientsByParent_def store_defs)
  have ids: "uid (node i r p q) = i" for i r p q
    by (simp add: node_def)
  have leaf: "getClientDownline (Suc 0) store_scenario i = Some []"
    if "getClientsByParent store_scenario i = []" for i
    using that by (simp add: getClientDownline.simps)
  have B: "getClientDownline (Suc (Suc 0)) store_scenario ''B'' =
      Some [node ''D'' ''client'' (Some ''B'') (Some ''left''),
            node ''E'' ''client'' (Some ''B'') (Some ''right'')]"
    by (simp add: getClientDownline.simps(2)[of "Suc 0"] kids ids leaf)
  have C: "getClientDownline (Suc (Suc 0)) store_scenario ''C'' =
      Some [node ''F'' ''client'' (Some ''C'') (Some ''left''),
            node ''G'' ''client'' (Some ''C'') (Some ''right'')]"
    by (simp add: getClientDownline.simps(2)[of "Suc 0"] kids ids leaf)
  have "getClientDownline (Suc (Suc (Suc 0))) store_scenario ''A'' = Some ?L"
    by (simp add: getClientDownline.simps(2)[of "Suc (Suc 0)"] kids ids B C)
  then have run: "getClientDownline 3 store_scenario ''A'' = Some ?L"
    by (simp add: numeral_3_eq_3)
  from downline_spec[OF ac di, of "''A''"] obtain n ds where
    all: "\<forall>m \<ge> n. getClientDownline m store_scenario ''A'' = Some ds"
    and desc: "set ds = descendants store_scenario ''A''"
    by blast
  from all have "getClientDownline (max n 3) store_scenario ''A'' = Some ds"
    by simp
  moreover have "getClientDownline (max n 3) store_scenario ''A'' = Some ?L"
    by (rule fuel_mono[OF run]) simp
  ultimately have "ds = ?L" by simp
  with desc have "descendants store_scenario ''A'' = set ?L" by simp
  with ac di run show ?thesis by (intro conjI)
qed

subsection \<open>C10: Children without a position, unknown identifiers\<close>

text \<open>
  C10, first two parts as stated: a stored child whose \<open>position\<close> is null does not
  occupy a slot (dropping every such node from the store changes no answer), so a
  parent all of whose children have a null \<open>position\<close> has both slots available, however
  many children it has. Third part as amended: an identifier that no stored node names
  as its parent has both slots available, whether or not it matches a stored node.
\<close>

theorem getAvailablePositions_ignores_null:
  "getAvailablePositions s pid = getAvailablePositions (filter (\<lambda>u. position u \<noteq> None) s) pid
   \<and> ((\<forall>c \<in> set (getClientsByParent s pid). position c = None)
        \<longrightarrow> getAvailablePositions s pid = [Left, Right])
   \<and> ((\<forall>u \<in> set s. parentId u \<noteq> Some pid) \<longrightarrow> getAvailablePositions s pid = [Left, Right])"
proof (intro conjI impI)
  have "\<And>q. q \<in> set (getAvailablePositions s pid) \<longleftrightarrow>
      q \<in> set (getAvailablePositions (filter (\<lambda>u. position u \<noteq> None) s) pid)"
    by (auto simp: avail_iff)
  then show "getAvailablePositions s pid =
      getAvailablePositions (filter (\<lambda>u. position u \<noteq> None) s) pid"
    using avail_shape[of s pid] avail_shape[of "filter (\<lambda>u. position u \<noteq> None) s" pid]
    by simp
next
  assume "\<forall>c \<in> set (getClientsByParent s pid). position c = None"
  then have "Left \<in> set (getAvailablePositions s pid)" "Right \<in> set (getAvailablePositions s pid)"
    by (auto simp: avail_iff getClientsByParent_def)
  then show "getAvailablePositions s pid = [Left, Right]"
    using avail_shape[of s pid] by simp
next
  assume "\<forall>u \<in> set s. parentId u \<noteq> Some pid"
  then have "Left \<in> set (getAvailablePositions s pid)" "Right \<in> set (getAvailablePositions s pid)"
    by (auto simp: avail_iff)
  then show "getAvailablePositions s pid = [Left, Right]"
    using avail_shape[of s pid] by simp
qed

theorem getAvailablePositions_ignores_null_witness:
  "map position (getClientsByParent
                 [node ''A'' ''admin'' None None, node ''X'' ''client'' (Some ''A'') None,
                  node ''Y'' ''client'' (Some ''A'') None, node ''Z'' ''client'' (Some ''A'') None]
                 ''A'') = [None, None, None]
   \<and> getAvailablePositions
         [node ''A'' ''admin'' None None, node ''X'' ''client'' (Some ''A'') None,
          node ''Y'' ''client'' (Some ''A'') None, node ''Z'' ''client'' (Some ''A'') None]
         ''A'' = [Left, Right]
   \<and> filter (\<lambda>u. parentId u = Some ''ghost'') store_one = []
   \<and> getAvailablePositions store_one ''ghost'' = [Left, Right]"
proof -
  let ?s = "[node ''A'' ''admin'' None None, node ''X'' ''client'' (Some ''A'') None,
             node ''Y'' ''client'' (Some ''A'') None, node ''Z'' ''client'' (Some ''A'') None]"
  have a: "map position (getClientsByParent ?s ''A'') = [None, None, None]"
    by (simp add: store_defs getClientsByParent_def)
  have a': "\<forall>c \<in> set (getClientsByParent ?s ''A''). position c = None"
    by (simp add: store_defs getClientsByParent_def)
  have c: "filter (\<lambda>u. parentId u = Some ''ghost'') store_one = []"
    by (simp add: store_defs)
  have c': "\<forall>u \<in> set store_one. parentId u \<noteq> Some ''ghost''"
    by (simp add: store_defs)
  note r1 = getAvailablePositions_ignores_null[of ?s "''A''",
      THEN conjunct2, THEN conjunct1, THEN mp, OF a']
  note r2 = getAvailablePositions_ignores_null[of store_one "''ghost''",
      THEN conjunct2, THEN conjunct2, THEN mp, OF c']
  show ?thesis
    by (intro conjI) (rule a r1 c r2)+
qed

text \<open>
  C10, third part as stated, fails: \<open>ghost\<close> matches no stored node, yet a stored node
  names it as its parent and sits in its left slot, so only \<open>right\<close> is available.
\<close>

theorem unknown_id_counterexample:
  "getUserById store_dangling ''ghost'' = None
   \<and> getAvailablePositions store_dangling ''ghost'' = [Right]"
  by (simp add: store_defs query_defs)

end
